theory Spec2Isabelle
  imports Main "HOL-Library.Sublist" "HOL-Library.Multiset"
begin

section \<open>JavaScript strings and arrays\<close>

text \<open>
  A JavaScript string is modelled as a \<open>string\<close>, one \<open>char\<close> per UTF-16 code unit, for
  the strings whose code units are below 256. Numbers are the integers the command line
  and the prompts produce with \<open>parseInt\<close>; \<open>Infinity\<close> is a value of its own and
  \<open>NaN\<close> is kept out of the numeric options.
\<close>

text \<open>The code units below 256 that \<open>String.prototype.trim\<close> and the regular
  expression class \<open>\s\<close> treat as white space: TAB, LF, VT, FF, CR, SPACE, NBSP.\<close>

definition isWhiteSpace :: "char \<Rightarrow> bool" where
  "isWhiteSpace c \<longleftrightarrow>
     c = CHR 0x09 \<or> c = CHR 0x0A \<or> c = CHR 0x0B \<or> c = CHR 0x0C \<or> c = CHR 0x0D \<or>
     c = CHR 0x20 \<or> c = CHR 0xA0"

text \<open>\<open>line.trim()\<close>\<close>

definition trim :: "string \<Rightarrow> string" where
  "trim s = rev (dropWhile isWhiteSpace (rev (dropWhile isWhiteSpace s)))"

text \<open>\<open>content.split('\n')\<close>: always at least one piece.\<close>

fun split_nl :: "string \<Rightarrow> string list" where
  "split_nl [] = [[]]"
| "split_nl (c # cs) =
     (if c = CHR 0x0A then [] # split_nl cs
      else (case split_nl cs of [] \<Rightarrow> [[c]] | l # ls \<Rightarrow> (c # l) # ls))"

text \<open>\<open>videoUrls.join('\n')\<close> (extractor.js writes \<open>playlist.txt\<close> this way).\<close>

fun join_nl :: "string list \<Rightarrow> string" where
  "join_nl [] = []"
| "join_nl [l] = l"
| "join_nl (l # ls) = l @ CHR 0x0A # join_nl ls"

text \<open>\<open>s.startsWith(p)\<close> and \<open>s.includes(sub)\<close>\<close>

definition startsWith :: "string \<Rightarrow> string \<Rightarrow> bool" where
  "startsWith p s \<longleftrightarrow> take (length p) s = p"

fun str_includes :: "string \<Rightarrow> string \<Rightarrow> bool" where
  "str_includes sub [] = (sub = [])"
| "str_includes sub (c # cs) = (startsWith sub (c # cs) \<or> str_includes sub cs)"

text \<open>
  \<open>Array.prototype.slice(start, end)\<close> on integer arguments: a negative argument counts
  from the end of the array, both are clamped to the array, and an end at or before the
  start gives the empty array.
\<close>

definition js_slice :: "'a list \<Rightarrow> int \<Rightarrow> int \<Rightarrow> 'a list" where
  "js_slice xs start end' =
     (let len = int (length xs);
          k = (if start < 0 then max (len + start) 0 else min start len);
          final = (if end' < 0 then max (len + end') 0 else min end' len)
      in take (nat (final - k)) (drop (nat k) xs))"

section \<open>The source file reader (downloadFromFile, lines 149-161)\<close>

text \<open>
  \<open>content.split('\n').map(line => line.trim())
     .filter(line => line && !line.startsWith('#'))
     .filter(line => line.includes('youtube.com') || line.includes('youtu.be'))\<close>
\<close>

definition parse_urls :: "string \<Rightarrow> string list" where
  "parse_urls content =
     filter (\<lambda>line. str_includes ''youtube.com'' line \<or> str_includes ''youtu.be'' line)
       (filter (\<lambda>line. line \<noteq> [] \<and> \<not> startsWith ''#'' line)
         (map trim (split_nl content)))"

section \<open>Range selection (downloadFromFile, lines 163-169)\<close>

text \<open>The option \<open>endIndex\<close> is an exclusive integer index or \<open>Infinity\<close> (the default).\<close>

datatype js_index = Finite int | Infinity

text \<open>
  \<open>const startIdx = Math.max(0, startIndex);
   const endIdx = Math.min(urls.length, endIndex === Infinity ? urls.length : endIndex);
   const urlsToProcess = urls.slice(startIdx, endIdx);\<close>
\<close>

definition startIdx_of :: "int \<Rightarrow> int" where
  "startIdx_of startIndex = max 0 startIndex"

definition endIdx_of :: "'a list \<Rightarrow> js_index \<Rightarrow> int" where
  "endIdx_of urls endIndex =
     min (int (length urls))
         (case endIndex of Infinity \<Rightarrow> int (length urls) | Finite e \<Rightarrow> e)"

definition select_range :: "'a list \<Rightarrow> int \<Rightarrow> js_index \<Rightarrow> 'a list" where
  "select_range urls startIndex endIndex =
     js_slice urls (startIdx_of startIndex) (endIdx_of urls endIndex)"

text \<open>
  The command line gives the end index inclusive (downloader.js, line 277):
  \<open>getArg('--end') ? parseInt(getArg('--end')) + 1 : Infinity\<close>.
\<close>

definition cli_endIndex :: "int option \<Rightarrow> js_index" where
  "cli_endIndex end_arg = (case end_arg of None \<Rightarrow> Infinity | Some e \<Rightarrow> Finite (e + 1))"

section \<open>The batch scheduler (downloadFromFile, lines 178-231)\<close>

text \<open>
  The promise returned for one item settles either way: \<open>Inl msg\<close> is a rejection with an
  \<open>Error\<close> whose \<open>message\<close> is \<open>msg\<close>, \<open>Inr r\<close> is fulfilment with the record \<open>r\<close>.
\<close>

type_synonym 'r outcome = "string + 'r"

text \<open>The records pushed on \<open>results\<close> and \<open>errors\<close>:
  \<open>{ url, ...result }\<close> and \<open>{ url, error: error.message }\<close>.\<close>

datatype 'r entry = Fulfilled string 'r | Rejected string string

fun entry_url :: "'r entry \<Rightarrow> string" where
  "entry_url (Fulfilled url r) = url"
| "entry_url (Rejected url msg) = url"

fun to_entry :: "string \<Rightarrow> 'r outcome \<Rightarrow> 'r entry" where
  "to_entry url (Inr r) = Fulfilled url r"
| "to_entry url (Inl msg) = Rejected url msg"

text \<open>\<open>if (result.error)\<close>: a record without the field gives \<open>undefined\<close>, which is falsy,
  and so is the empty string.\<close>

fun error_truthy :: "'r entry \<Rightarrow> bool" where
  "error_truthy (Fulfilled url r) = False"
| "error_truthy (Rejected url msg) = (msg \<noteq> [])"

text \<open>What the scheduler does that can be observed from outside: it invokes the per-item
  pipeline, it joins a chunk (\<open>await Promise.all\<close>), it sleeps (\<open>setTimeout\<close>).\<close>

datatype sched_event = Invoke string | Join "string list" | Delay int

record ('r, 's) acc =
  results :: "'r entry list"
  errors :: "'r entry list"
  trace :: "sched_event list"
  pstate :: 's
  event_order :: "nat list"

text \<open>
  The sequential loop, lines 183-202. The delay sits inside the \<open>try\<close> block after the
  \<open>await\<close> of the item, so a rejection jumps over it to the \<open>catch\<close>.
\<close>

definition seq_step ::
  "(string \<Rightarrow> 's \<Rightarrow> 'r outcome \<times> 's) \<Rightarrow> string list \<Rightarrow> int \<Rightarrow> nat \<Rightarrow> ('r, 's) acc \<Rightarrow> ('r, 's) acc"
where
  "seq_step proc urlsToProcess delay i a =
     (let url = urlsToProcess ! i;
          (out, st) = proc url (pstate a)
      in case out of
           Inr result \<Rightarrow>
             a\<lparr>results := results a @ [Fulfilled url result],
               trace := trace a @ [Invoke url] @
                 (if int i < int (length urlsToProcess) - 1 \<and> delay > 0 then [Delay delay] else []),
               pstate := st\<rparr>
         | Inl msg \<Rightarrow>
             a\<lparr>errors := errors a @ [Rejected url msg],
               trace := trace a @ [Invoke url],
               pstate := st\<rparr>)"

function seq_loop ::
  "(string \<Rightarrow> 's \<Rightarrow> 'r outcome \<times> 's) \<Rightarrow> string list \<Rightarrow> int \<Rightarrow> nat \<Rightarrow> ('r, 's) acc \<Rightarrow> ('r, 's) acc"
where
  "seq_loop proc urlsToProcess delay i a =
     (if i < length urlsToProcess
      then seq_loop proc urlsToProcess delay (i + 1) (seq_step proc urlsToProcess delay i a)
      else a)"
  by pat_completeness auto
termination
  by (relation "measure (\<lambda>(proc, urls, delay, i, a). length urls - i)") auto

subsection \<open>A call of the pipeline, in the pieces the event loop runs\<close>

text \<open>
  \<open>downloadMp3\<close> is an \<open>async\<close> function that gives up control twice: at
  \<open>await this.getVideoInfo(videoId)\<close> (line 76) and in the promise of lines 101-128, which
  an event of \<open>ffmpeg\<close> settles. A call is therefore run in up to three pieces: \<open>on_call\<close>
  runs when the function is called, \<open>on_info\<close> when the awaited value arrives, \<open>on_end\<close>
  when the event arrives. Each piece either settles the promise of the call or leaves it
  waiting for the next piece; in between, pieces of other calls may run.
\<close>

record ('t, 'u, 'r, 's) stages =
  on_call :: "string \<Rightarrow> 's \<Rightarrow> ('t + 'r outcome) \<times> 's"
  on_info :: "'t \<Rightarrow> 's \<Rightarrow> ('u + 'r outcome) \<times> 's"
  on_end :: "'u \<Rightarrow> 's \<Rightarrow> 'r outcome \<times> 's"

text \<open>\<open>await this.downloadMp3(url)\<close> in the sequential loop: nothing else is in flight, so
  the pieces of the call run back to back.\<close>

definition complete :: "('t, 'u, 'r, 's) stages \<Rightarrow> string \<Rightarrow> 's \<Rightarrow> 'r outcome \<times> 's" where
  "complete P url st =
     (case on_call P url st of
        (Inr out, st1) \<Rightarrow> (out, st1)
      | (Inl t, st1) \<Rightarrow>
          (case on_info P t st1 of
             (Inr out, st2) \<Rightarrow> (out, st2)
           | (Inl u, st2) \<Rightarrow> on_end P u st2))"

text \<open>A promise of the chunk: waiting for the awaited value, waiting for the event, or
  settled.\<close>

datatype ('t, 'u, 'r) task = AwaitInfo 't | AwaitEnd 'u | Settled "'r outcome"

fun awaits_info :: "('t, 'u, 'r) task \<Rightarrow> bool" where
  "awaits_info (AwaitInfo t) = True"
| "awaits_info (AwaitEnd u) = False"
| "awaits_info (Settled out) = False"

fun awaits_end :: "('t, 'u, 'r) task \<Rightarrow> bool" where
  "awaits_end (AwaitInfo t) = False"
| "awaits_end (AwaitEnd u) = True"
| "awaits_end (Settled out) = False"

fun settled_outcomes :: "('t, 'u, 'r) task list \<Rightarrow> 'r outcome list" where
  "settled_outcomes [] = []"
| "settled_outcomes (Settled out # ts) = out # settled_outcomes ts"
| "settled_outcomes (t # ts) = settled_outcomes ts"

text \<open>
  \<open>chunk.map((url, idx) => this.downloadMp3(url).then(...).catch(...))\<close>: every call of the
  chunk is made, in the order of the chunk, before control returns to the event loop.
\<close>

fun start_all ::
  "('t, 'u, 'r, 's) stages \<Rightarrow> string list \<Rightarrow> 's \<Rightarrow> ('t, 'u, 'r) task list \<times> 's" where
  "start_all P [] st = ([], st)"
| "start_all P (url # rest) st =
     (let (r, st1) = on_call P url st;
          (ts, st2) = start_all P rest st1
      in ((case r of Inl t \<Rightarrow> AwaitInfo t | Inr out \<Rightarrow> Settled out) # ts, st2))"

text \<open>The next piece of a waiting call.\<close>

definition advance ::
  "('t, 'u, 'r, 's) stages \<Rightarrow> ('t, 'u, 'r) task \<Rightarrow> 's \<Rightarrow> ('t, 'u, 'r) task \<times> 's" where
  "advance P task st =
     (case task of
        AwaitInfo t \<Rightarrow>
          (case on_info P t st of
             (Inl u, st') \<Rightarrow> (AwaitEnd u, st')
           | (Inr out, st') \<Rightarrow> (Settled out, st'))
      | AwaitEnd u \<Rightarrow> (case on_end P u st of (out, st') \<Rightarrow> (Settled out, st'))
      | Settled out \<Rightarrow> (Settled out, st))"

text \<open>
  Which waiting call gets its value or event next is decided outside the program. The
  calls still waiting are listed, those waiting for the awaited value first; the head of
  \<open>picks\<close> selects one of them, and when \<open>picks\<close> is used up the first of the list is
  taken, so that by default every awaited value arrives, in the order of the calls,
  before any event does. Every order of arrival is the behaviour for some \<open>picks\<close>.
\<close>

definition waiting :: "('t, 'u, 'r) task list \<Rightarrow> nat list" where
  "waiting ts =
     filter (\<lambda>i. awaits_info (ts ! i)) [0..<length ts] @
     filter (\<lambda>i. awaits_end (ts ! i)) [0..<length ts]"

definition next_arrival :: "nat list \<Rightarrow> nat list \<Rightarrow> nat" where
  "next_arrival picks ws = ws ! (case picks of [] \<Rightarrow> 0 | p # ps \<Rightarrow> p mod length ws)"

fun task_rank :: "('t, 'u, 'r) task \<Rightarrow> nat" where
  "task_rank (AwaitInfo t) = 2"
| "task_rank (AwaitEnd u) = 1"
| "task_rank (Settled out) = 0"

text \<open>\<open>await Promise.all(promises)\<close>: the event loop runs the pieces of the waiting calls
  until every promise of the chunk has settled.\<close>

function drain ::
  "('t, 'u, 'r, 's) stages \<Rightarrow> nat list \<Rightarrow> ('t, 'u, 'r) task list \<Rightarrow> 's
     \<Rightarrow> ('t, 'u, 'r) task list \<times> nat list \<times> 's"
where
  "drain P picks ts st =
     (if waiting ts = [] then (ts, picks, st)
      else
        (let i = next_arrival picks (waiting ts);
             r = advance P (ts ! i) st
         in drain P (tl picks) (ts[i := fst r]) (snd r)))"
  by pat_completeness auto
termination
proof (relation "measure (\<lambda>(P, picks, ts, st). sum_list (map task_rank ts))")
  show "wf (measure (\<lambda>(P, picks, ts, st). sum_list (map task_rank ts)))" by simp
next
  fix P :: "('t, 'u, 'r, 's) stages" and picks :: "nat list"
    and ts :: "('t, 'u, 'r) task list" and st :: 's and i r
  assume w: "waiting ts \<noteq> []" and i: "i = next_arrival picks (waiting ts)"
    and r: "r = advance P (ts ! i) st"
  have "(case picks of [] \<Rightarrow> 0 | p # ps \<Rightarrow> p mod length (waiting ts)) < length (waiting ts)"
    using w by (cases picks) auto
  then have "i \<in> set (waiting ts)" unfolding i next_arrival_def by (rule nth_mem)
  then have il: "i < length ts" and aw: "awaits_info (ts ! i) \<or> awaits_end (ts ! i)"
    by (auto simp: waiting_def)
  have less: "task_rank (fst r) < task_rank (ts ! i)"
  proof (cases "ts ! i")
    case (AwaitInfo t)
    then show ?thesis unfolding r advance_def by (simp split: prod.splits sum.splits)
  next
    case (AwaitEnd u)
    then show ?thesis unfolding r advance_def by (simp split: prod.splits)
  next
    case (Settled out)
    then show ?thesis using aw by simp
  qed
  have "sum_list (map task_rank (ts[i := fst r])) =
        sum_list (map task_rank ts) + task_rank (fst r) - task_rank (ts ! i)"
    using il by (simp add: map_update sum_list_update)
  moreover have "task_rank (ts ! i) \<in> set (map task_rank ts)" using il by simp
  then have "task_rank (ts ! i) \<le> sum_list (map task_rank ts)"
    by (simp add: member_le_sum_list)
  ultimately have "sum_list (map task_rank (ts[i := fst r])) < sum_list (map task_rank ts)"
    using less by linarith
  then show "((P, tl picks, ts[i := fst r], snd r), P, picks, ts, st)
      \<in> measure (\<lambda>(P, picks, ts, st). sum_list (map task_rank ts))"
    by simp
qed

text \<open>The chunk as a whole: the calls, the wait, and \<open>chunkResults\<close>, which
  \<open>Promise.all\<close> gives in the order of the chunk whatever the order of settlement.\<close>

definition run_chunk ::
  "('t, 'u, 'r, 's) stages \<Rightarrow> nat list \<Rightarrow> string list \<Rightarrow> 's \<Rightarrow> 'r entry list \<times> nat list \<times> 's"
where
  "run_chunk P picks chunk st =
     (let (ts0, st0) = start_all P chunk st;
          (ts, picks', st') = drain P picks ts0 st0
      in (map2 to_entry chunk (settled_outcomes ts), picks', st'))"

text \<open>\<open>chunkResults.forEach((result) => { if (result.error) errors.push(result) else results.push(result) })\<close>\<close>

definition push_result :: "'r entry \<Rightarrow> ('r, 's) acc \<Rightarrow> ('r, 's) acc" where
  "push_result result a =
     (if error_truthy result then a\<lparr>errors := errors a @ [result]\<rparr>
      else a\<lparr>results := results a @ [result]\<rparr>)"

definition chunk_step ::
  "('t, 'u, 'r, 's) stages \<Rightarrow> string list \<Rightarrow> int \<Rightarrow> int \<Rightarrow> int \<Rightarrow> ('r, 's) acc \<Rightarrow> ('r, 's) acc"
where
  "chunk_step P urlsToProcess concurrent delay i a =
     (let chunk = js_slice urlsToProcess i (i + concurrent);
          (chunkResults, picks, st) = run_chunk P (event_order a) chunk (pstate a);
          a1 = fold push_result chunkResults
                 (a\<lparr>trace := trace a @ map Invoke chunk @ [Join chunk], pstate := st,
                    event_order := picks\<rparr>)
      in if i + concurrent < int (length urlsToProcess) \<and> delay > 0
         then a1\<lparr>trace := trace a1 @ [Delay delay]\<rparr> else a1)"

text \<open>
  The chunk loop, lines 205-230: \<open>for (let i = 0; i < urlsToProcess.length; i += concurrent)\<close>.
  With \<open>concurrent \<le> 0\<close> the index never passes the length and the loop does not return:
  the value is \<open>None\<close> then.
\<close>

partial_function (option) chunk_loop ::
  "('t, 'u, 'r, 's) stages \<Rightarrow> string list \<Rightarrow> int \<Rightarrow> int \<Rightarrow> int \<Rightarrow> ('r, 's) acc
     \<Rightarrow> ('r, 's) acc option"
where
  "chunk_loop pipeline urlsToProcess concurrent delay i a =
     (if i < int (length urlsToProcess)
      then chunk_loop pipeline urlsToProcess concurrent delay (i + concurrent)
             (chunk_step pipeline urlsToProcess concurrent delay i a)
      else Some a)"

declare chunk_loop.simps [code]

text \<open>Lines 178-231: the two modes, selected by \<open>concurrent === 1\<close>.\<close>

definition schedule ::
  "('t, 'u, 'r, 's) stages \<Rightarrow> string list \<Rightarrow> int \<Rightarrow> int \<Rightarrow> nat list \<Rightarrow> 's
     \<Rightarrow> ('r, 's) acc option"
where
  "schedule P urlsToProcess concurrent delay picks st =
     (let a0 = \<lparr>results = [], errors = [], trace = [], pstate = st, event_order = picks\<rparr>
      in if concurrent = 1 then Some (seq_loop (complete P) urlsToProcess delay 0 a0)
         else chunk_loop P urlsToProcess concurrent delay 0 a0)"

section \<open>The single-item pipeline (downloadMp3, lines 27-132)\<close>

subsection \<open>extractVideoId\<close>

text \<open>
  The regular expression of \<open>extractVideoId\<close> is
  \<^verbatim>\<open>(?:youtube\.com\/(?:[^\/]+\/.+\/|(?:v|e(?:mbed)?)\/|.*[?&]v=)|youtu\.be\/)([^"&?\/\s]{11})\<close>.
  A backtracking matcher for the constructs it uses: \<open>rx_match r s\<close> lists what is left of
  \<open>s\<close> after each way \<open>r\<close> matches a prefix of \<open>s\<close>, in the order the engine tries them
  (left alternative first, greedy repetition longest first).
\<close>

datatype rx =
    Lit string
  | Cls "char \<Rightarrow> bool"
  | Rep0 "char \<Rightarrow> bool"
  | Rep1 "char \<Rightarrow> bool"
  | Seq rx rx
  | Alt rx rx
  | Opt rx

fun rx_match :: "rx \<Rightarrow> string \<Rightarrow> string list" where
  "rx_match (Lit p) s = (if startsWith p s then [drop (length p) s] else [])"
| "rx_match (Cls P) s = (case s of [] \<Rightarrow> [] | c # cs \<Rightarrow> if P c then [cs] else [])"
| "rx_match (Rep0 P) s = map (\<lambda>k. drop k s) (rev [0..<Suc (length (takeWhile P s))])"
| "rx_match (Rep1 P) s = map (\<lambda>k. drop k s) (rev [1..<Suc (length (takeWhile P s))])"
| "rx_match (Seq a b) s = concat (map (rx_match b) (rx_match a s))"
| "rx_match (Alt a b) s = rx_match a s @ rx_match b s"
| "rx_match (Opt a) s = rx_match a s @ [s]"

text \<open>\<open>.\<close> matches every code unit but the line terminators; \<open>[^\/]\<close>; \<open>[?&]\<close>;
  \<open>[^"&?\/\s]\<close>.\<close>

definition rx_dot :: "char \<Rightarrow> bool" where
  "rx_dot c \<longleftrightarrow> c \<noteq> CHR 0x0A \<and> c \<noteq> CHR 0x0D"

definition not_slash :: "char \<Rightarrow> bool" where
  "not_slash c \<longleftrightarrow> c \<noteq> CHR ''/''"

definition query_sep :: "char \<Rightarrow> bool" where
  "query_sep c \<longleftrightarrow> c = CHR ''?'' \<or> c = CHR ''&''"

definition id_char :: "char \<Rightarrow> bool" where
  "id_char c \<longleftrightarrow>
     c \<noteq> CHR 0x22 \<and> c \<noteq> CHR ''&'' \<and> c \<noteq> CHR ''?'' \<and> c \<noteq> CHR ''/'' \<and> \<not> isWhiteSpace c"

text \<open>The part of the expression before the capturing group.\<close>

definition videoId_prefix :: rx where
  "videoId_prefix =
     Alt (Seq (Lit ''youtube.com/'')
            (Alt (Seq (Rep1 not_slash) (Seq (Lit ''/'') (Seq (Rep1 rx_dot) (Lit ''/''))))
              (Alt (Seq (Alt (Lit ''v'') (Seq (Lit ''e'') (Opt (Lit ''mbed'')))) (Lit ''/''))
                   (Seq (Rep0 rx_dot) (Seq (Cls query_sep) (Lit ''v=''))))))
         (Lit ''youtu.be/'')"

text \<open>The capturing group \<open>([^"&?\/\s]{11})\<close> at the start of what is left.\<close>

definition capture11 :: "string \<Rightarrow> string option" where
  "capture11 s =
     (if 11 \<le> length s \<and> list_all id_char (take 11 s) then Some (take 11 s) else None)"

fun first_capture :: "string list \<Rightarrow> string option" where
  "first_capture [] = None"
| "first_capture (r # rs) =
     (case capture11 r of Some v \<Rightarrow> Some v | None \<Rightarrow> first_capture rs)"

text \<open>\<open>url.match(regex)\<close> takes the leftmost position at which the expression matches;
  \<open>match?.[1] || null\<close> is the captured group there.\<close>

fun rx_search :: "string \<Rightarrow> string option" where
  "rx_search [] = first_capture (rx_match videoId_prefix [])"
| "rx_search (c # cs) =
     (case first_capture (rx_match videoId_prefix (c # cs)) of
        Some v \<Rightarrow> Some v
      | None \<Rightarrow> rx_search cs)"

definition extractVideoId :: "string \<Rightarrow> string option" where
  "extractVideoId url = rx_search url"

subsection \<open>sanitizeFilename\<close>

text \<open>\<open>filename.replace(/[<>:"/\\|?*]/g, '').replace(/\s+/g, ' ').trim()\<close>\<close>

definition unsafe_char :: "char \<Rightarrow> bool" where
  "unsafe_char c \<longleftrightarrow>
     c = CHR ''<'' \<or> c = CHR ''>'' \<or> c = CHR '':'' \<or> c = CHR 0x22 \<or> c = CHR ''/'' \<or>
     c = CHR 0x5C \<or> c = CHR ''|'' \<or> c = CHR ''?'' \<or> c = CHR ''*''"

function collapse_ws :: "string \<Rightarrow> string" where
  "collapse_ws [] = []"
| "collapse_ws (c # cs) =
     (if isWhiteSpace c then CHR '' '' # collapse_ws (dropWhile isWhiteSpace cs)
      else c # collapse_ws cs)"
  by pat_completeness auto
termination
  by (relation "measure length") (auto simp: length_dropWhile_le less_Suc_eq_le)

definition sanitizeFilename :: "string \<Rightarrow> string" where
  "sanitizeFilename filename = trim (collapse_ws (filter (\<lambda>c. \<not> unsafe_char c) filename))"

subsection \<open>The collaborators and the world\<close>

text \<open>What \<open>ytdl.getInfo\<close> resolves to, as far as \<open>getVideoInfo\<close> reads it.\<close>

record videoDetails =
  vd_title :: string
  lengthSeconds :: nat
  author_name :: string

record videoInfo =
  vi_title :: string
  vi_filename :: string
  duration :: nat
  author :: string

text \<open>
  The instance fields of the class and the libraries it calls. \<open>ytdl_getInfo\<close> is the
  metadata request: \<open>Inl msg\<close> when it throws an error with that message.
  \<open>ytdl_ffmpeg videoId quality outputPath\<close> is the audio stream of \<open>ytdl\<close> piped through
  \<open>ffmpeg\<close> into \<open>outputPath\<close>: \<open>Inl msg\<close> is the \<open>error\<close> event with \<open>err.message = msg\<close>,
  \<open>Inr bytes\<close> is the \<open>end\<close> event after \<open>bytes\<close> were written. Each call is taken to
  settle. \<open>arrivals\<close> is the order in which the answers and events of the calls in
  flight come in (the \<open>picks\<close> of the chunk's wait).
\<close>

record env =
  outputDir :: string
  quality :: string
  ytdl_getInfo :: "string \<Rightarrow> string + videoDetails"
  path_join :: "string \<Rightarrow> string \<Rightarrow> string"
  ytdl_ffmpeg :: "string \<Rightarrow> string \<Rightarrow> string \<Rightarrow> string + string"
  arrivals :: "nat list"

text \<open>The calls that leave the process, in the order they are made.\<close>

datatype io_event = GetInfo string | ExistsSync string | StreamFetch string | FfmpegRun string

fun is_network :: "io_event \<Rightarrow> bool" where
  "is_network (GetInfo videoId) = True"
| "is_network (StreamFetch videoId) = True"
| "is_network (ExistsSync p) = False"
| "is_network (FfmpegRun p) = False"

record world =
  files :: "string \<rightharpoonup> string"
  io_log :: "io_event list"

text \<open>The record a fulfilled \<open>downloadMp3\<close> carries; a field the code leaves out is
  \<open>None\<close>.\<close>

record dl_result =
  success :: bool
  filename :: string
  message :: "string option"
  skipped :: "bool option"
  path :: "string option"
  title :: "string option"

subsection \<open>getVideoInfo and downloadMp3\<close>

definition getVideoInfo :: "env \<Rightarrow> string \<Rightarrow> string + videoInfo" where
  "getVideoInfo e videoId =
     (case ytdl_getInfo e videoId of
        Inl msg \<Rightarrow> Inl (''Failed to get video info: '' @ msg)
      | Inr videoDetails \<Rightarrow>
          Inr \<lparr>vi_title = vd_title videoDetails,
               vi_filename = sanitizeFilename (vd_title videoDetails) @ ''.mp3'',
               duration = lengthSeconds videoDetails,
               author = author_name videoDetails\<rparr>)"

definition log_io :: "io_event list \<Rightarrow> world \<Rightarrow> world" where
  "log_io evs w = w\<lparr>io_log := io_log w @ evs\<rparr>"

text \<open>\<open>customName ? `${this.sanitizeFilename(customName)}.mp3` : videoInfo.filename\<close>;
  \<open>null\<close> and the empty string are falsy.\<close>

definition chosen_filename :: "string option \<Rightarrow> videoInfo \<Rightarrow> string" where
  "chosen_filename customName videoInfo =
     (case customName of
        None \<Rightarrow> vi_filename videoInfo
      | Some c \<Rightarrow> if c \<noteq> [] then sanitizeFilename c @ ''.mp3'' else vi_filename videoInfo)"

definition downloadMp3 :: "env \<Rightarrow> string \<Rightarrow> string option \<Rightarrow> world \<Rightarrow> dl_result outcome \<times> world" where
  "downloadMp3 e url customName w =
     (case extractVideoId url of
        None \<Rightarrow> (Inl (''Invalid YouTube URL: '' @ url), w)
      | Some videoId \<Rightarrow>
          (let w1 = log_io [GetInfo videoId] w in
           case getVideoInfo e videoId of
             Inl msg \<Rightarrow> (Inl msg, w1)
           | Inr videoInfo \<Rightarrow>
               (let filename = chosen_filename customName videoInfo;
                    outputPath = path_join e (outputDir e) filename;
                    w2 = log_io [ExistsSync outputPath] w1
                in if files w2 outputPath \<noteq> None
                   then (Inr \<lparr>success = True, filename = filename,
                              message = Some ''File already exists'', skipped = Some True,
                              path = None, title = None\<rparr>, w2)
                   else
                     (let w3 = log_io [StreamFetch videoId, FfmpegRun outputPath] w2 in
                      case ytdl_ffmpeg e videoId (quality e) outputPath of
                        Inl msg \<Rightarrow> (Inl (''ffmpeg error: '' @ msg), w3)
                      | Inr bytes \<Rightarrow>
                          (Inr \<lparr>success = True, filename = filename,
                                message = None, skipped = None,
                                path = Some outputPath, title = Some (vi_title videoInfo)\<rparr>,
                           w3\<lparr>files := (files w3)(outputPath \<mapsto> bytes)\<rparr>)))))"

subsection \<open>downloadMp3 in the pieces the event loop runs\<close>

text \<open>
  The same function cut at its two suspension points. The call runs up to the \<open>await\<close>
  of line 76, having sent the metadata request; the second piece runs from the answer
  to the start of \<open>ffmpeg\<close> (lines 76-127), with the existence check of line 83 in it;
  the third is the \<open>end\<close> or \<open>error\<close> handler (lines 115-126). As in \<open>downloadMp3\<close>
  above, the output file is there from the \<open>end\<close> event on.
\<close>

record pending_info =
  info_videoId :: string
  info_customName :: "string option"

record pending_run =
  run_videoId :: string
  run_videoInfo :: videoInfo
  run_filename :: string
  run_outputPath :: string

definition mp3_call ::
  "env \<Rightarrow> string option \<Rightarrow> string \<Rightarrow> world \<Rightarrow> (pending_info + dl_result outcome) \<times> world" where
  "mp3_call e customName url w =
     (case extractVideoId url of
        None \<Rightarrow> (Inr (Inl (''Invalid YouTube URL: '' @ url)), w)
      | Some videoId \<Rightarrow>
          (Inl \<lparr>info_videoId = videoId, info_customName = customName\<rparr>,
           log_io [GetInfo videoId] w))"

definition mp3_info ::
  "env \<Rightarrow> pending_info \<Rightarrow> world \<Rightarrow> (pending_run + dl_result outcome) \<times> world" where
  "mp3_info e p w =
     (case getVideoInfo e (info_videoId p) of
        Inl msg \<Rightarrow> (Inr (Inl msg), w)
      | Inr videoInfo \<Rightarrow>
          (let filename = chosen_filename (info_customName p) videoInfo;
               outputPath = path_join e (outputDir e) filename;
               w2 = log_io [ExistsSync outputPath] w
           in if files w2 outputPath \<noteq> None
              then (Inr (Inr \<lparr>success = True, filename = filename,
                              message = Some ''File already exists'', skipped = Some True,
                              path = None, title = None\<rparr>), w2)
              else (Inl \<lparr>run_videoId = info_videoId p, run_videoInfo = videoInfo,
                         run_filename = filename, run_outputPath = outputPath\<rparr>,
                    log_io [StreamFetch (info_videoId p), FfmpegRun outputPath] w2)))"

definition mp3_end :: "env \<Rightarrow> pending_run \<Rightarrow> world \<Rightarrow> dl_result outcome \<times> world" where
  "mp3_end e r w =
     (case ytdl_ffmpeg e (run_videoId r) (quality e) (run_outputPath r) of
        Inl msg \<Rightarrow> (Inl (''ffmpeg error: '' @ msg), w)
      | Inr bytes \<Rightarrow>
          (Inr \<lparr>success = True, filename = run_filename r,
                message = None, skipped = None,
                path = Some (run_outputPath r), title = Some (vi_title (run_videoInfo r))\<rparr>,
           w\<lparr>files := (files w)(run_outputPath r \<mapsto> bytes)\<rparr>))"

definition mp3_stages ::
  "env \<Rightarrow> string option \<Rightarrow> (pending_info, pending_run, dl_result, world) stages" where
  "mp3_stages e customName =
     \<lparr>on_call = mp3_call e customName, on_info = mp3_info e, on_end = mp3_end e\<rparr>"

section \<open>downloadFromFile (lines 137-239)\<close>

datatype error = FileNotFound string | NoValidUrls

fun error_message :: "error \<Rightarrow> string" where
  "error_message (FileNotFound filePath) = ''File not found: '' @ filePath"
| "error_message NoValidUrls = ''No valid YouTube URLs found in file''"

record options =
  concurrent :: int
  delay :: int
  startIndex :: int
  endIndex :: js_index

definition default_options :: options where
  "default_options = \<lparr>concurrent = 1, delay = 15000, startIndex = 0, endIndex = Infinity\<rparr>"

text \<open>The returned object \<open>{ results, errors, total, fullListTotal }\<close>, together with
  what the run did (\<open>trace\<close>) and the world it left (\<open>pstate\<close>). The scheduler calls
  \<open>this.downloadMp3(url)\<close>, without a custom name.\<close>

record ('r, 's) report = "('r, 's) acc" +
  total :: nat
  fullListTotal :: nat

definition downloadFromFile ::
  "env \<Rightarrow> string \<Rightarrow> options \<Rightarrow> world \<Rightarrow> (error + (dl_result, world) report) option"
where
  "downloadFromFile e filePath opts w =
     (case files w filePath of
        None \<Rightarrow> Some (Inl (FileNotFound filePath))
      | Some content \<Rightarrow>
          (let urls = parse_urls content in
           if urls = [] then Some (Inl NoValidUrls)
           else
             (let urlsToProcess = select_range urls (startIndex opts) (endIndex opts) in
              case schedule (mp3_stages e None) urlsToProcess
                     (concurrent opts) (delay opts) (arrivals e) w of
                None \<Rightarrow> None
              | Some a \<Rightarrow>
                  Some (Inr \<lparr>results = results a, errors = errors a, trace = trace a,
                             pstate = pstate a, event_order = event_order a,
                             total = length urlsToProcess, fullListTotal = length urls\<rparr>))))"

section \<open>The interactive entry point (index.js, lines 27-60)\<close>

text \<open>An answer to a prompt: the empty string, a string \<open>parseInt\<close> reads as an integer,
  or one it reads as \<open>NaN\<close>.\<close>

datatype answer = Blank | Number int | NotANumber

datatype range_check = IndicesNotNumbers | InvalidIndexRange | Accepted int int

text \<open>
  Lines 30-45. \<open>endIndex++\<close> (line 35) comes before the validation, which therefore
  compares the incremented end with the start, and before the clamping.
\<close>

definition check_range :: "nat \<Rightarrow> answer \<Rightarrow> answer \<Rightarrow> range_check" where
  "check_range totalVideos startIndexInput endIndexInput =
     (let startIndex = (case startIndexInput of
                          Blank \<Rightarrow> Some 0 | Number n \<Rightarrow> Some n | NotANumber \<Rightarrow> None);
          endIndex = (case endIndexInput of
                        Blank \<Rightarrow> Some (int totalVideos - 1) | Number n \<Rightarrow> Some n
                      | NotANumber \<Rightarrow> None);
          endIndex = map_option (\<lambda>n. n + 1) endIndex
      in case (startIndex, endIndex) of
           (Some s, Some e) \<Rightarrow> if s < 0 \<or> e < s then InvalidIndexRange else Accepted s e
         | _ \<Rightarrow> IndicesNotNumbers)"

text \<open>
  Lines 27-60, once \<open>extractPlaylist\<close> has returned \<open>playlistData\<close>. A call comes to a
  refusal (\<open>console.error\<close> and \<open>return\<close>, before anything is downloaded), written
  \<open>Inl\<close>; or to an error of \<open>downloadFromFile\<close>, caught and logged at line 62, written
  \<open>Inr (Inl err)\<close>; or to the returned \<open>selectedVideos\<close>, beside the report of the run
  that \<open>downloadFromFile\<close> made and the caller drops. \<open>selectedVideos\<close> is cut with
  \<open>Math.min(endIndex, totalVideos - 1)\<close> and \<open>endIdx + 1\<close> (lines 52-53), on the end index
  that line 35 has already incremented; \<open>downloadFromFile\<close> gets the incremented index
  as its exclusive end, with the defaults of \<open>new downloader()\<close>.
\<close>

definition getPlaylistDetails ::
  "env \<Rightarrow> string list \<Rightarrow> answer \<Rightarrow> answer \<Rightarrow> world
     \<Rightarrow> (range_check + error + string list \<times> (dl_result, world) report) option"
where
  "getPlaylistDetails e playlistData startIndexInput endIndexInput w =
     (let totalVideos = length playlistData in
      case check_range totalVideos startIndexInput endIndexInput of
        Accepted startIndex' endIndex' \<Rightarrow>
          (let endIdx = min endIndex' (int totalVideos - 1);
               selectedVideos = js_slice playlistData startIndex' (endIdx + 1)
           in case downloadFromFile
                     (e\<lparr>outputDir := ''./downloads'', quality := ''highestaudio''\<rparr>)
                     ''playlist.txt''
                     (default_options\<lparr>startIndex := startIndex', endIndex := Finite endIndex'\<rparr>)
                     w of
                None \<Rightarrow> None
              | Some (Inl err) \<Rightarrow> Some (Inr (Inl err))
              | Some (Inr rep) \<Rightarrow> Some (Inr (Inr (selectedVideos, rep))))
      | refused \<Rightarrow> Some (Inl refused))"

section \<open>Vocabulary of the specification\<close>

text \<open>The items a trace invokes the pipeline on, and the delays it sleeps, in order.\<close>

fun invoked :: "sched_event list \<Rightarrow> string list" where
  "invoked [] = []"
| "invoked (Invoke url # evs) = url # invoked evs"
| "invoked (ev # evs) = invoked evs"

fun delays :: "sched_event list \<Rightarrow> int list" where
  "delays [] = []"
| "delays (Delay d # evs) = d # delays evs"
| "delays (ev # evs) = delays evs"

text \<open>
  The sequential replay of a list of items: each is processed to its end, in order, on
  the state the one before it left. This is what \<open>await\<close> in the sequential loop makes of
  the run, and the records are those the loop sorts.
\<close>

fun run_all :: "(string \<Rightarrow> 's \<Rightarrow> 'r outcome \<times> 's) \<Rightarrow> string list \<Rightarrow> 's \<Rightarrow> 'r entry list \<times> 's" where
  "run_all proc [] st = ([], st)"
| "run_all proc (url # rest) st =
     (let (out, st1) = proc url st;
          (es, st2) = run_all proc rest st1
      in (to_entry url out # es, st2))"

fun is_rejected :: "'r entry \<Rightarrow> bool" where
  "is_rejected (Rejected url msg) = True"
| "is_rejected (Fulfilled url r) = False"

text \<open>
  Following the specification's words, not the code: the consecutive chunks of size \<open>c\<close>
  of a list, the last one possibly smaller.
\<close>

function chunks_of :: "nat \<Rightarrow> 'a list \<Rightarrow> 'a list list" where
  "chunks_of c xs = (if c = 0 \<or> xs = [] then [] else take c xs # chunks_of c (drop c xs))"
  by pat_completeness auto
termination
  by (relation "measure (\<lambda>(c, xs). length xs)") auto

text \<open>
  Following the specification's words: every item of a chunk is dispatched, the chunk is
  joined, and a delay follows each chunk except the last.
\<close>

fun chunked_trace :: "int \<Rightarrow> string list list \<Rightarrow> sched_event list" where
  "chunked_trace d [] = []"
| "chunked_trace d [ch] = map Invoke ch @ [Join ch]"
| "chunked_trace d (ch # chs) =
     map Invoke ch @ [Join ch] @ (if d > 0 then [Delay d] else []) @ chunked_trace d chs"

text \<open>
  What the sequential loop leaves in the trace, from the records of the items in order:
  a delay follows an item that is not the last only when its promise was fulfilled.
\<close>

fun seq_trace :: "int \<Rightarrow> 'r entry list \<Rightarrow> sched_event list" where
  "seq_trace d [] = []"
| "seq_trace d [e] = [Invoke (entry_url e)]"
| "seq_trace d (e # es) =
     Invoke (entry_url e) #
       (if \<not> is_rejected e \<and> d > 0 then [Delay d] else []) @ seq_trace d es"

text \<open>The chunks of a run one after the other, each on the state and the arrivals the
  one before it left; the records, chunk by chunk.\<close>

fun run_chunks ::
  "('t, 'u, 'r, 's) stages \<Rightarrow> nat list \<Rightarrow> string list list \<Rightarrow> 's
     \<Rightarrow> 'r entry list list \<times> nat list \<times> 's" where
  "run_chunks P picks [] st = ([], picks, st)"
| "run_chunks P picks (ch # chs) st =
     (let (es, picks1, st1) = run_chunk P picks ch st;
          (ess, picks2, st2) = run_chunks P picks1 chs st1
      in (es # ess, picks2, st2))"

text \<open>The units of work of a run, and the record of each item in the run, in the order of
  the items: in sequential mode every item is a unit of its own.\<close>

definition units :: "int \<Rightarrow> string list \<Rightarrow> string list list" where
  "units c urls = (if c = 1 then map (\<lambda>url. [url]) urls else chunks_of (nat c) urls)"

definition item_records ::
  "('t, 'u, 'r, 's) stages \<Rightarrow> int \<Rightarrow> nat list \<Rightarrow> string list \<Rightarrow> 's \<Rightarrow> 'r entry list" where
  "item_records P c picks urls st =
     (if c = 1 then fst (run_all (complete P) urls st)
      else concat (fst (run_chunks P picks (chunks_of (nat c) urls) st)))"

text \<open>What each mode takes for a failure when it sorts a record: the sequential loop a
  rejection (its \<open>catch\<close> block), the chunked loop a truthy \<open>error\<close> field.\<close>

definition sorted_as_error :: "int \<Rightarrow> 'r entry \<Rightarrow> bool" where
  "sorted_as_error c e = (if c = 1 then is_rejected e else error_truthy e)"

subsection \<open>What the specification asks of a chunk\<close>

text \<open>
  Following the specification's words. Within a chunk all items are dispatched
  simultaneously: every call is made, in the order of the chunk, before anything else
  happens.
\<close>

inductive dispatched ::
  "('t, 'u, 'r, 's) stages \<Rightarrow> string list \<Rightarrow> 's \<Rightarrow> ('t, 'u, 'r) task list \<Rightarrow> 's \<Rightarrow> bool"
  for P :: "('t, 'u, 'r, 's) stages"
where
  dispatched_none: "dispatched P [] st [] st"
| dispatched_waiting:
    "on_call P url st = (Inl t, st1) \<Longrightarrow> dispatched P rest st1 ts st2 \<Longrightarrow>
     dispatched P (url # rest) st (AwaitInfo t # ts) st2"
| dispatched_settled:
    "on_call P url st = (Inr out, st1) \<Longrightarrow> dispatched P rest st1 ts st2 \<Longrightarrow>
     dispatched P (url # rest) st (Settled out # ts) st2"

text \<open>
  Individual completion order within a chunk is unspecified: any waiting item may take
  its next step, on the state as it then is.
\<close>

inductive progress ::
  "('t, 'u, 'r, 's) stages \<Rightarrow> ('t, 'u, 'r) task list \<times> 's \<Rightarrow> ('t, 'u, 'r) task list \<times> 's \<Rightarrow> bool"
  for P :: "('t, 'u, 'r, 's) stages"
where
  info_continues:
    "i < length ts \<Longrightarrow> ts ! i = AwaitInfo t \<Longrightarrow> on_info P t st = (Inl u, st') \<Longrightarrow>
     progress P (ts, st) (ts[i := AwaitEnd u], st')"
| info_settles:
    "i < length ts \<Longrightarrow> ts ! i = AwaitInfo t \<Longrightarrow> on_info P t st = (Inr out, st') \<Longrightarrow>
     progress P (ts, st) (ts[i := Settled out], st')"
| end_settles:
    "i < length ts \<Longrightarrow> ts ! i = AwaitEnd u \<Longrightarrow> on_end P u st = (out, st') \<Longrightarrow>
     progress P (ts, st) (ts[i := Settled out], st')"

text \<open>
  The scheduler waits for every item in the chunk to finish, success or failure, before
  proceeding: the chunk is over when every item has settled, with \<open>outs\<close> the outcomes in
  the order of the chunk.
\<close>

definition chunk_completes ::
  "('t, 'u, 'r, 's) stages \<Rightarrow> string list \<Rightarrow> 's \<Rightarrow> 'r outcome list \<Rightarrow> 's \<Rightarrow> bool" where
  "chunk_completes P chunk st outs st' \<longleftrightarrow>
     (\<exists>ts0 st0. dispatched P chunk st ts0 st0 \<and>
        rtranclp (progress P) (ts0, st0) (map Settled outs, st'))"

text \<open>
  Chunk after chunk: the next chunk is dispatched on the state the previous one left
  when it was over. \<open>recs\<close> holds the record of every item, chunk by chunk.
\<close>

inductive chunks_complete ::
  "('t, 'u, 'r, 's) stages \<Rightarrow> string list list \<Rightarrow> 's \<Rightarrow> 'r entry list list \<Rightarrow> 's \<Rightarrow> bool"
  for P :: "('t, 'u, 'r, 's) stages"
where
  chunks_none: "chunks_complete P [] st [] st"
| chunks_next:
    "chunk_completes P chunk st outs st1 \<Longrightarrow> length outs = length chunk \<Longrightarrow>
     chunks_complete P rest st1 recs st2 \<Longrightarrow>
     chunks_complete P (chunk # rest) st (map2 to_entry chunk outs # recs) st2"

text \<open>Every rejection of the pipeline carries a message.\<close>

definition rejections_carry_message :: "('t, 'u, 'r, 's) stages \<Rightarrow> bool" where
  "rejections_carry_message P \<longleftrightarrow>
     (\<forall>url st st'. on_call P url st \<noteq> (Inr (Inl []), st')) \<and>
     (\<forall>t st st'. on_info P t st \<noteq> (Inr (Inl []), st')) \<and>
     (\<forall>u st st'. on_end P u st \<noteq> (Inl [], st'))"

section \<open>Concrete collaborators for the examples\<close>

text \<open>
  A metadata service that knows every video but \<open>BBBBBBBBBBB\<close>, a transcoder that always
  ends, \<open>path.join\<close> on a directory name without dots, and the default order of
  arrival.
\<close>

definition demo_env :: env where
  "demo_env =
     \<lparr>outputDir = ''downloads'', quality = ''highestaudio'',
      ytdl_getInfo = (\<lambda>videoId.
        if videoId = ''BBBBBBBBBBB'' then Inl ''Video unavailable''
        else Inr \<lparr>vd_title = ''Track '' @ videoId, lengthSeconds = 185,
                  author_name = ''Artist''\<rparr>),
      path_join = (\<lambda>dir file. dir @ ''/'' @ file),
      ytdl_ffmpeg = (\<lambda>videoId quality outputPath. Inr ''ID3''),
      arrivals = []\<rparr>"

text \<open>A world whose only file is the list \<open>playlist.txt\<close> with the given lines.\<close>

definition demo_world :: "string list \<Rightarrow> world" where
  "demo_world lines = \<lparr>files = [''playlist.txt'' \<mapsto> join_nl lines], io_log = []\<rparr>"

text \<open>A world in which the output file of the video \<open>AAAAAAAAAAA\<close> already exists.\<close>

definition downloaded_world :: world where
  "downloaded_world =
     \<lparr>files = [''downloads/Track AAAAAAAAAAA.mp3'' \<mapsto> ''ID3''], io_log = []\<rparr>"

text \<open>
  A pipeline double that keeps a log of its pieces as its state. The item \<open>silent\<close> is
  rejected with \<open>new Error('')\<close> and the item \<open>loud\<close> with \<open>new Error('boom')\<close>, both when
  the awaited value arrives; every other item is fulfilled at its event.
\<close>

definition probe :: "(string, string, unit, string list) stages" where
  "probe =
     \<lparr>on_call = (\<lambda>url log. (Inl url, log @ [''call '' @ url])),
      on_info = (\<lambda>url log.
        if url = ''silent'' then (Inr (Inl []), log @ [''info '' @ url])
        else if url = ''loud'' then (Inr (Inl ''boom''), log @ [''info '' @ url])
        else (Inl url, log @ [''info '' @ url])),
      on_end = (\<lambda>url log. (Inr (), log @ [''end '' @ url]))\<rparr>"

section \<open>The video id of some URLs\<close>

text \<open>The greedy \<open>.*\<close> makes the last \<open>v=\<close> parameter win; a reference that names the host
  and nothing else has no video id.\<close>

lemma extractVideoId_examples:
  "extractVideoId ''https://www.youtube.com/watch?v=AAAAAAAAAAA&list=PLx&v=BBBBBBBBBBB'' =
     Some ''BBBBBBBBBBB''"
  "extractVideoId ''https://www.youtube.com/embed/AAAAAAAAAAA?x=1'' = Some ''AAAAAAAAAAA''"
  "extractVideoId ''https://www.youtube.com/user/foo/bar/AAAAAAAAAAAxyz'' = Some ''AAAAAAAAAAA''"
  "extractVideoId ''https://youtu.be/short'' = None"
  "extractVideoId ''https://youtube.com/'' = None"
  by code_simp+

lemma sanitizeFilename_example:
  "sanitizeFilename ''  A  <b>: c/d   e?  '' = ''A b cd e''"
  by code_simp

section \<open>Traces and the per-item records\<close>

declare chunks_of.simps [simp del]

lemma invoked_append: "invoked (xs @ ys) = invoked xs @ invoked ys"
  by (induction xs rule: invoked.induct) auto

lemma delays_append: "delays (xs @ ys) = delays xs @ delays ys"
  by (induction xs rule: delays.induct) auto

lemma invoked_map_Invoke: "invoked (map Invoke us) = us"
  by (induction us) auto

lemma delays_map_Invoke: "delays (map Invoke us) = []"
  by (induction us) auto

lemma run_all_urls: "map entry_url (fst (run_all proc urls st)) = urls"
proof (induction urls arbitrary: st)
  case Nil
  then show ?case by simp
next
  case (Cons u us)
  obtain out st1 where p: "proc u st = (out, st1)" by (cases "proc u st")
  obtain es st2 where r: "run_all proc us st1 = (es, st2)" by (cases "run_all proc us st1")
  have "map entry_url es = us" using Cons.IH [of st1] r by simp
  moreover have "entry_url (to_entry u out) = u" by (cases out) auto
  ultimately show ?case using p r by simp
qed

lemma run_all_length: "length (fst (run_all proc urls st)) = length urls"
  using run_all_urls [of proc urls st] by (metis length_map)

lemma run_all_append:
  "run_all proc (xs @ ys) st =
     (fst (run_all proc xs st) @ fst (run_all proc ys (snd (run_all proc xs st))),
      snd (run_all proc ys (snd (run_all proc xs st))))"
proof (induction xs arbitrary: st)
  case Nil
  then show ?case by simp
next
  case (Cons u us)
  obtain out st1 where p: "proc u st = (out, st1)" by (cases "proc u st")
  show ?case using Cons.IH [of st1] p by (simp add: split_beta)
qed

lemma run_all_Cons:
  "run_all proc (u # us) st =
     (to_entry u (fst (proc u st)) # fst (run_all proc us (snd (proc u st))),
      snd (run_all proc us (snd (proc u st))))"
  by (simp add: split_beta)

lemma fold_push_result:
  "fold push_result es a =
     a\<lparr>results := results a @ filter (\<lambda>e. \<not> error_truthy e) es,
       errors := errors a @ filter error_truthy es\<rparr>"
proof (induction es arbitrary: a)
  case Nil
  then show ?case by simp
next
  case (Cons x xs)
  have "fold push_result (x # xs) a = fold push_result xs (push_result x a)" by simp
  also have "\<dots> = (push_result x a)\<lparr>results := results (push_result x a) @ filter (\<lambda>e. \<not> error_truthy e) xs,
       errors := errors (push_result x a) @ filter error_truthy xs\<rparr>"
    by (rule Cons.IH)
  also have "\<dots> = a\<lparr>results := results a @ filter (\<lambda>e. \<not> error_truthy e) (x # xs),
       errors := errors a @ filter error_truthy (x # xs)\<rparr>"
    by (cases "error_truthy x") (simp_all add: push_result_def)
  finally show ?case .
qed

lemma js_slice_chunk:
  assumes "0 \<le> i" "0 \<le> c"
  shows "js_slice xs i (i + c) = take (nat c) (drop (nat i) xs)"
proof (cases "i \<le> int (length xs)")
  case True
  then show ?thesis using assms
    by (auto simp: js_slice_def Let_def min_def nat_add_distrib)
next
  case False
  then show ?thesis using assms
    by (auto simp: js_slice_def Let_def min_def)
qed

section \<open>Chunks\<close>

lemma chunks_of_Nil [simp]: "chunks_of c [] = []"
  by (simp add: chunks_of.simps)

lemma chunks_of_step:
  "0 < c \<Longrightarrow> xs \<noteq> [] \<Longrightarrow> chunks_of c xs = take c xs # chunks_of c (drop c xs)"
  by (subst chunks_of.simps) simp

lemma concat_chunks_of: "0 < c \<Longrightarrow> concat (chunks_of c xs) = xs"
proof (induction c xs rule: chunks_of.induct)
  case (1 c xs)
  show ?case
  proof (cases "xs = []")
    case True
    then show ?thesis by simp
  next
    case False
    then show ?thesis using 1 by (simp add: chunks_of_step)
  qed
qed

lemma chunks_of_nonempty: "ch \<in> set (chunks_of c xs) \<Longrightarrow> ch \<noteq> [] \<and> length ch \<le> c"
proof (induction c xs rule: chunks_of.induct)
  case (1 c xs)
  show ?case
  proof (cases "c = 0 \<or> xs = []")
    case True
    then show ?thesis using "1.prems" by (auto simp: chunks_of.simps)
  next
    case False
    then have "ch = take c xs \<or> ch \<in> set (chunks_of c (drop c xs))"
      using "1.prems" by (simp add: chunks_of_step)
    then show ?thesis using False "1.IH" by auto
  qed
qed

lemma chunks_of_butlast:
  "ch \<in> set (butlast (chunks_of c xs)) \<Longrightarrow> length ch = c"
proof (induction c xs rule: chunks_of.induct)
  case (1 c xs)
  show ?case
  proof (cases "c = 0 \<or> xs = []")
    case True
    then show ?thesis using "1.prems" by (auto simp: chunks_of.simps)
  next
    case False
    show ?thesis
    proof (cases "drop c xs = []")
      case True
      then show ?thesis using False "1.prems" by (simp add: chunks_of_step)
    next
      case d: False
      then have ne: "chunks_of c (drop c xs) \<noteq> []"
        using False by (simp add: chunks_of_step [of c "drop c xs"])
      have "ch = take c xs \<or> ch \<in> set (butlast (chunks_of c (drop c xs)))"
        using "1.prems" False ne by (simp add: chunks_of_step)
      then show ?thesis using False d "1.IH" by auto
    qed
  qed
qed

lemma length_chunks_of: "0 < c \<Longrightarrow> length (chunks_of c xs) = (length xs + c - 1) div c"
proof (induction c xs rule: chunks_of.induct)
  case (1 c xs)
  show ?case
  proof (cases "xs = []")
    case True
    then show ?thesis using "1.prems" by simp
  next
    case False
    have ih: "length (chunks_of c (drop c xs)) = (length (drop c xs) + c - 1) div c"
      using 1 False by simp
    show ?thesis
    proof (cases "length xs \<le> c")
      case True
      moreover obtain y ys where "xs = y # ys" using False by (cases xs) auto
      ultimately have "(length xs + c - 1) div c = 1"
        using "1.prems" by (intro div_nat_eqI) auto
      then show ?thesis using True False "1.prems" by (simp add: chunks_of_step)
    next
      case f: False
      then have "length xs + c - 1 = (length xs - c + c - 1) + c" using "1.prems" by simp
      then have "(length xs + c - 1) div c = Suc ((length xs - c + c - 1) div c)"
        using "1.prems" by (metis div_add_self2 Suc_eq_plus1 less_numeral_extra(3))
      then show ?thesis using ih False "1.prems" by (simp add: chunks_of_step)
    qed
  qed
qed

section \<open>The sequential loop\<close>

declare seq_loop.simps [simp del]

lemma seq_trace_Cons:
  "seq_trace d (e # es) =
     Invoke (entry_url e) # (if es \<noteq> [] \<and> \<not> is_rejected e \<and> d > 0 then [Delay d] else []) @ seq_trace d es"
  by (cases es) auto

lemma seq_step_fields:
  assumes "i < length urls"
    and e_def: "e = to_entry (urls ! i) (fst (proc (urls ! i) (pstate a)))"
  shows "results (seq_step proc urls d i a) = results a @ filter (\<lambda>e. \<not> is_rejected e) [e]"
    and "errors (seq_step proc urls d i a) = errors a @ filter is_rejected [e]"
    and "pstate (seq_step proc urls d i a) = snd (proc (urls ! i) (pstate a))"
    and "trace (seq_step proc urls d i a) =
           trace a @ Invoke (urls ! i) #
             (if Suc i < length urls \<and> \<not> is_rejected e \<and> d > 0 then [Delay d] else [])"
proof -
  obtain out st where p: "proc (urls ! i) (pstate a) = (out, st)"
    by (cases "proc (urls ! i) (pstate a)")
  have lt: "(int i < int (length urls) - 1) = (Suc i < length urls)" by auto
  show "results (seq_step proc urls d i a) = results a @ filter (\<lambda>e. \<not> is_rejected e) [e]"
    and "errors (seq_step proc urls d i a) = errors a @ filter is_rejected [e]"
    and "pstate (seq_step proc urls d i a) = snd (proc (urls ! i) (pstate a))"
    and "trace (seq_step proc urls d i a) =
           trace a @ Invoke (urls ! i) #
             (if Suc i < length urls \<and> \<not> is_rejected e \<and> d > 0 then [Delay d] else [])"
    unfolding e_def seq_step_def Let_def p lt
    by (cases out; simp)+
qed

lemma seq_loop_char:
  "results (seq_loop proc urls d i a) = results a @
      filter (\<lambda>e. \<not> is_rejected e) (fst (run_all proc (drop i urls) (pstate a))) \<and>
   errors (seq_loop proc urls d i a) = errors a @
      filter is_rejected (fst (run_all proc (drop i urls) (pstate a))) \<and>
   pstate (seq_loop proc urls d i a) = snd (run_all proc (drop i urls) (pstate a)) \<and>
   trace (seq_loop proc urls d i a) =
      trace a @ seq_trace d (fst (run_all proc (drop i urls) (pstate a)))"
proof (induction proc urls d i a rule: seq_loop.induct)
  case (1 proc urls d i a)
  show ?case
  proof (cases "i < length urls")
    case False
    then show ?thesis by (simp add: seq_loop.simps)
  next
    case True
    define a1 where "a1 = seq_step proc urls d i a"
    define e where "e = to_entry (urls ! i) (fst (proc (urls ! i) (pstate a)))"
    define rest where "rest = fst (run_all proc (drop (Suc i) urls) (pstate a1))"
    have unfold: "seq_loop proc urls d i a = seq_loop proc urls d (i + 1) a1"
      using True by (subst seq_loop.simps) (simp add: a1_def)
    have ih: "results (seq_loop proc urls d (i + 1) a1) = results a1 @
                filter (\<lambda>e. \<not> is_rejected e) rest"
         "errors (seq_loop proc urls d (i + 1) a1) = errors a1 @ filter is_rejected rest"
         "pstate (seq_loop proc urls d (i + 1) a1) =
            snd (run_all proc (drop (Suc i) urls) (pstate a1))"
         "trace (seq_loop proc urls d (i + 1) a1) = trace a1 @ seq_trace d rest"
      using "1.IH" [OF True] by (simp_all add: a1_def rest_def)
    have f: "results a1 = results a @ filter (\<lambda>e. \<not> is_rejected e) [e]"
        "errors a1 = errors a @ filter is_rejected [e]"
        "pstate a1 = snd (proc (urls ! i) (pstate a))"
        "trace a1 = trace a @ Invoke (urls ! i) #
             (if Suc i < length urls \<and> \<not> is_rejected e \<and> d > 0 then [Delay d] else [])"
      unfolding a1_def using seq_step_fields [of i urls e proc a d] True e_def by simp_all
    have dr: "drop i urls = urls ! i # drop (Suc i) urls"
      using True by (simp add: Cons_nth_drop_Suc)
    have ra: "run_all proc (drop i urls) (pstate a) =
        (e # rest, snd (run_all proc (drop (Suc i) urls) (pstate a1)))"
      unfolding dr run_all_Cons by (simp add: e_def rest_def f(3))
    have "length rest = length urls - Suc i"
      using run_all_length [of proc "drop (Suc i) urls" "pstate a1"] by (simp add: rest_def)
    then have rest_ne: "(rest \<noteq> []) = (Suc i < length urls)"
      by (cases rest) auto
    have eu: "entry_url e = urls ! i"
      by (cases "fst (proc (urls ! i) (pstate a))") (simp_all add: e_def)
    show ?thesis
      unfolding unfold ra using ih f rest_ne eu
      by (simp add: seq_trace_Cons)
  qed
qed

section \<open>The calls of a chunk and the wait for them\<close>

declare drain.simps [simp del]

lemma start_all_length: "length (fst (start_all P chunk st)) = length chunk"
  by (induction chunk arbitrary: st) (auto simp: split_beta)

lemma start_all_dispatched:
  "dispatched P chunk st (fst (start_all P chunk st)) (snd (start_all P chunk st))"
proof (induction chunk arbitrary: st)
  case Nil
  show ?case by (simp add: dispatched_none)
next
  case (Cons url rest)
  obtain r st1 where c: "on_call P url st = (r, st1)" by (cases "on_call P url st")
  note ih = Cons.IH [of st1]
  show ?case
  proof (cases r)
    case (Inl t)
    then show ?thesis using c ih by (simp add: split_beta dispatched_waiting)
  next
    case (Inr out)
    then show ?thesis using c ih by (simp add: split_beta dispatched_settled)
  qed
qed

lemma in_waiting:
  "i \<in> set (waiting ts) \<longleftrightarrow> i < length ts \<and> (awaits_info (ts ! i) \<or> awaits_end (ts ! i))"
  by (auto simp: waiting_def)

lemma next_arrival_in: "ws \<noteq> [] \<Longrightarrow> next_arrival picks ws \<in> set ws"
proof -
  assume w: "ws \<noteq> []"
  have "(case picks of [] \<Rightarrow> 0 | p # ps \<Rightarrow> p mod length ws) < length ws"
    using w by (cases picks) auto
  then show ?thesis unfolding next_arrival_def by (rule nth_mem)
qed

lemma not_waiting_settled:
  "\<not> awaits_info t \<Longrightarrow> \<not> awaits_end t \<Longrightarrow> \<exists>out. t = Settled out"
  by (cases t) auto

lemma waiting_none_settled:
  assumes "waiting ts = []"
  shows "map Settled (settled_outcomes ts) = ts"
proof -
  have "\<forall>i<length ts. \<exists>out. ts ! i = Settled out"
  proof (intro allI impI)
    fix i assume "i < length ts"
    moreover have "i \<notin> set (waiting ts)" using assms by simp
    ultimately show "\<exists>out. ts ! i = Settled out"
      using not_waiting_settled by (auto simp: in_waiting)
  qed
  then have "\<forall>t \<in> set ts. \<exists>out. t = Settled out"
    by (metis in_set_conv_nth)
  then show ?thesis by (induction ts) auto
qed

lemma advance_progress:
  assumes "i < length ts" and "awaits_info (ts ! i) \<or> awaits_end (ts ! i)"
  shows "progress P (ts, st) (ts[i := fst (advance P (ts ! i) st)], snd (advance P (ts ! i) st))"
proof (cases "ts ! i")
  case (AwaitInfo t)
  obtain r st' where o: "on_info P t st = (r, st')" by (cases "on_info P t st")
  show ?thesis
  proof (cases r)
    case (Inl u)
    then show ?thesis
      using info_continues [OF assms(1) AwaitInfo, of P st u st'] o AwaitInfo
      by (simp add: advance_def)
  next
    case (Inr out)
    then show ?thesis
      using info_settles [OF assms(1) AwaitInfo, of P st out st'] o AwaitInfo
      by (simp add: advance_def)
  qed
next
  case (AwaitEnd u)
  obtain out st' where o: "on_end P u st = (out, st')" by (cases "on_end P u st")
  show ?thesis
    using end_settles [OF assms(1) AwaitEnd, of P st out st'] o AwaitEnd
    by (simp add: advance_def)
next
  case (Settled out)
  then show ?thesis using assms(2) by simp
qed

lemma drain_unfold:
  "waiting ts \<noteq> [] \<Longrightarrow>
   drain P picks ts st =
     drain P (tl picks)
       (ts[next_arrival picks (waiting ts) :=
             fst (advance P (ts ! next_arrival picks (waiting ts)) st)])
       (snd (advance P (ts ! next_arrival picks (waiting ts)) st))"
  by (subst drain.simps) (simp add: Let_def)

lemma drain_done: "waiting ts = [] \<Longrightarrow> drain P picks ts st = (ts, picks, st)"
  by (subst drain.simps) simp

lemma drain_progress:
  "rtranclp (progress P) (ts, st)
     (fst (drain P picks ts st), snd (snd (drain P picks ts st)))"
proof (induction P picks ts st rule: drain.induct)
  case (1 P picks ts st)
  show ?case
  proof (cases "waiting ts = []")
    case True
    then show ?thesis by (simp add: drain_done)
  next
    case False
    define i where "i = next_arrival picks (waiting ts)"
    define r where "r = advance P (ts ! i) st"
    have "i \<in> set (waiting ts)" unfolding i_def using False by (rule next_arrival_in)
    then have "progress P (ts, st) (ts[i := fst r], snd r)"
      unfolding r_def by (simp add: in_waiting advance_progress)
    moreover have "rtranclp (progress P) (ts[i := fst r], snd r)
        (fst (drain P (tl picks) (ts[i := fst r]) (snd r)),
         snd (snd (drain P (tl picks) (ts[i := fst r]) (snd r))))"
      using "1.IH" [OF False i_def r_def] .
    ultimately show ?thesis
      unfolding drain_unfold [OF False] i_def [symmetric] r_def [symmetric]
      by (rule converse_rtranclp_into_rtranclp)
  qed
qed

lemma drain_waiting: "waiting (fst (drain P picks ts st)) = []"
proof (induction P picks ts st rule: drain.induct)
  case (1 P picks ts st)
  show ?case
  proof (cases "waiting ts = []")
    case True
    then show ?thesis by (simp add: drain_done)
  next
    case False
    show ?thesis
      unfolding drain_unfold [OF False] using "1.IH" [OF False refl refl] .
  qed
qed

lemma drain_length: "length (fst (drain P picks ts st)) = length ts"
proof (induction P picks ts st rule: drain.induct)
  case (1 P picks ts st)
  show ?case
  proof (cases "waiting ts = []")
    case True
    then show ?thesis by (simp add: drain_done)
  next
    case False
    show ?thesis
      unfolding drain_unfold [OF False] using "1.IH" [OF False refl refl] by simp
  qed
qed

lemma settled_outcomes_length:
  "waiting ts = [] \<Longrightarrow> length (settled_outcomes ts) = length ts"
  using waiting_none_settled [of ts] by (metis length_map)

text \<open>The chunk as run is a chunk as the specification asks.\<close>

lemma run_chunk_unfold:
  "run_chunk P picks chunk st =
     (map2 to_entry chunk
        (settled_outcomes
           (fst (drain P picks (fst (start_all P chunk st)) (snd (start_all P chunk st))))),
      fst (snd (drain P picks (fst (start_all P chunk st)) (snd (start_all P chunk st)))),
      snd (snd (drain P picks (fst (start_all P chunk st)) (snd (start_all P chunk st)))))"
  by (simp add: run_chunk_def split_beta)

lemma run_chunk_completes:
  "\<exists>outs. length outs = length chunk \<and>
      fst (run_chunk P picks chunk st) = map2 to_entry chunk outs \<and>
      chunk_completes P chunk st outs (snd (snd (run_chunk P picks chunk st)))"
proof -
  define ts0 where "ts0 = fst (start_all P chunk st)"
  define st0 where "st0 = snd (start_all P chunk st)"
  define ts where "ts = fst (drain P picks ts0 st0)"
  define st' where "st' = snd (snd (drain P picks ts0 st0))"
  define outs where "outs = settled_outcomes ts"
  have w: "waiting ts = []" unfolding ts_def by (rule drain_waiting)
  have "length ts = length chunk"
    unfolding ts_def ts0_def by (simp add: drain_length start_all_length)
  then have len: "length outs = length chunk"
    using w by (simp add: outs_def settled_outcomes_length)
  have "dispatched P chunk st ts0 st0"
    unfolding ts0_def st0_def by (rule start_all_dispatched)
  moreover have "rtranclp (progress P) (ts0, st0) (map Settled outs, st')"
    using drain_progress [of P ts0 st0 picks] w
    unfolding ts_def [symmetric] st'_def [symmetric] outs_def
    by (simp add: waiting_none_settled)
  ultimately have "chunk_completes P chunk st outs st'"
    unfolding chunk_completes_def by blast
  then show ?thesis
    using len unfolding run_chunk_unfold outs_def ts_def ts0_def st0_def st'_def
    by auto
qed

lemma map2_to_entry_urls:
  "length outs = length chunk \<Longrightarrow> map entry_url (map2 to_entry chunk outs) = chunk"
proof (induction chunk arbitrary: outs)
  case Nil
  then show ?case by simp
next
  case (Cons url rest)
  then obtain out outs' where o: "outs = out # outs'" by (cases outs) auto
  have "entry_url (to_entry url out) = url" by (cases out) auto
  then show ?case using Cons o by simp
qed

lemma run_chunk_urls: "map entry_url (fst (run_chunk P picks chunk st)) = chunk"
proof -
  obtain outs where "length outs = length chunk"
    and "fst (run_chunk P picks chunk st) = map2 to_entry chunk outs"
    using run_chunk_completes [of chunk P picks st] by blast
  then show ?thesis using map2_to_entry_urls [of outs chunk] by simp
qed

lemma run_chunks_Cons:
  "run_chunks P picks (ch # chs) st =
     (fst (run_chunk P picks ch st) #
        fst (run_chunks P (fst (snd (run_chunk P picks ch st))) chs
               (snd (snd (run_chunk P picks ch st)))),
      snd (run_chunks P (fst (snd (run_chunk P picks ch st))) chs
               (snd (snd (run_chunk P picks ch st)))))"
  by (simp add: split_beta)

lemma run_chunks_complete:
  "chunks_complete P chs st (fst (run_chunks P picks chs st))
     (snd (snd (run_chunks P picks chs st)))"
proof (induction chs arbitrary: picks st)
  case Nil
  show ?case by (simp add: chunks_none)
next
  case (Cons ch chs)
  obtain outs where len: "length outs = length ch"
    and es: "fst (run_chunk P picks ch st) = map2 to_entry ch outs"
    and cc: "chunk_completes P ch st outs (snd (snd (run_chunk P picks ch st)))"
    using run_chunk_completes [of ch P picks st] by blast
  show ?case
    unfolding run_chunks_Cons fst_conv snd_conv es
    by (rule chunks_next [OF cc len Cons.IH])
qed

lemma run_chunks_urls: "map (map entry_url) (fst (run_chunks P picks chs st)) = chs"
proof (induction chs arbitrary: picks st)
  case Nil
  show ?case by simp
next
  case (Cons ch chs)
  show ?case unfolding run_chunks_Cons fst_conv by (simp add: run_chunk_urls Cons.IH)
qed

section \<open>The chunk loop\<close>

lemma chunk_step_fields:
  assumes "0 \<le> i" "0 \<le> c" "ch = take (nat c) (drop (nat i) urls)"
  shows "results (chunk_step P urls c d i a) =
           results a @ filter (\<lambda>e. \<not> error_truthy e)
             (fst (run_chunk P (event_order a) ch (pstate a)))"
    and "errors (chunk_step P urls c d i a) =
           errors a @ filter error_truthy (fst (run_chunk P (event_order a) ch (pstate a)))"
    and "pstate (chunk_step P urls c d i a) =
           snd (snd (run_chunk P (event_order a) ch (pstate a)))"
    and "event_order (chunk_step P urls c d i a) =
           fst (snd (run_chunk P (event_order a) ch (pstate a)))"
    and "trace (chunk_step P urls c d i a) =
           trace a @ map Invoke ch @ [Join ch] @
             (if i + c < int (length urls) \<and> d > 0 then [Delay d] else [])"
  using assms
  by (simp_all add: chunk_step_def js_slice_chunk Let_def split_beta fold_push_result)

lemma chunks_of_ne: "0 < c \<Longrightarrow> xs \<noteq> [] \<Longrightarrow> chunks_of c xs \<noteq> []"
  by (simp add: chunks_of_step)

lemma chunked_trace_Cons:
  "chunked_trace d (ch # chs) =
     map Invoke ch @ [Join ch] @ (if chs \<noteq> [] \<and> d > 0 then [Delay d] else []) @ chunked_trace d chs"
  by (cases chs) auto

lemma chunk_loop_char:
  assumes "1 \<le> c" "0 \<le> i"
  shows "\<exists>a'. chunk_loop P urls c d i a = Some a' \<and>
     results a' = results a @ filter (\<lambda>e. \<not> error_truthy e)
        (concat (fst (run_chunks P (event_order a)
                   (chunks_of (nat c) (drop (nat i) urls)) (pstate a)))) \<and>
     errors a' = errors a @ filter error_truthy
        (concat (fst (run_chunks P (event_order a)
                   (chunks_of (nat c) (drop (nat i) urls)) (pstate a)))) \<and>
     pstate a' = snd (snd (run_chunks P (event_order a)
                   (chunks_of (nat c) (drop (nat i) urls)) (pstate a))) \<and>
     trace a' = trace a @ chunked_trace d (chunks_of (nat c) (drop (nat i) urls))"
  using assms(2)
proof (induction "length urls - nat i" arbitrary: i a rule: less_induct)
  case less
  show ?case
  proof (cases "i < int (length urls)")
    case False
    then have "chunk_loop P urls c d i a = Some a"
      by (subst chunk_loop.simps) simp
    moreover have "drop (nat i) urls = []" using False less.prems by simp
    ultimately show ?thesis by simp
  next
    case True
    define xs where "xs = drop (nat i) urls"
    define ch where "ch = take (nat c) xs"
    define a1 where "a1 = chunk_step P urls c d i a"
    define rc where "rc = run_chunk P (event_order a) ch (pstate a)"
    have c0: "0 \<le> c" "0 < nat c" using assms(1) by auto
    have xs_ne: "xs \<noteq> []" using True less.prems by (simp add: xs_def)
    have unfold: "chunk_loop P urls c d i a = chunk_loop P urls c d (i + c) a1"
      using True by (subst chunk_loop.simps) (simp add: a1_def)
    have dropc: "drop (nat (i + c)) urls = drop (nat c) xs"
      using less.prems c0 by (simp add: xs_def nat_add_distrib add.commute)
    have smaller: "length urls - nat (i + c) < length urls - nat i"
      using True less.prems assms(1) by auto
    have nonneg: "0 \<le> i + c" using less.prems assms(1) by simp
    have f1: "results a1 = results a @ filter (\<lambda>e. \<not> error_truthy e) (fst rc)"
      and f2: "errors a1 = errors a @ filter error_truthy (fst rc)"
      and f3: "pstate a1 = snd (snd rc)"
      and f5: "event_order a1 = fst (snd rc)"
      and f4: "trace a1 = trace a @ map Invoke ch @ [Join ch] @
             (if i + c < int (length urls) \<and> d > 0 then [Delay d] else [])"
      unfolding a1_def rc_def
      using chunk_step_fields [OF less.prems c0(1), of ch urls P d a]
      by (simp_all add: ch_def xs_def)
    define rest where
      "rest = run_chunks P (fst (snd rc)) (chunks_of (nat c) (drop (nat c) xs)) (snd (snd rc))"
    obtain a' where loop: "chunk_loop P urls c d (i + c) a1 = Some a'"
      and r: "results a' = results a1 @ filter (\<lambda>e. \<not> error_truthy e) (concat (fst rest))"
      and e: "errors a' = errors a1 @ filter error_truthy (concat (fst rest))"
      and p: "pstate a' = snd (snd rest)"
      and t: "trace a' = trace a1 @ chunked_trace d (chunks_of (nat c) (drop (nat c) xs))"
      using less.hyps [OF smaller nonneg, of a1] unfolding dropc f3 f5 rest_def by blast
    have ch_split: "chunks_of (nat c) xs = ch # chunks_of (nat c) (drop (nat c) xs)"
      using chunks_of_step [OF c0(2) xs_ne] by (simp add: ch_def)
    have whole: "run_chunks P (event_order a) (chunks_of (nat c) xs) (pstate a) =
        (fst rc # fst rest, snd rest)"
      unfolding ch_split run_chunks_Cons rc_def [symmetric] rest_def [symmetric] ..
    have more: "(i + c < int (length urls)) = (chunks_of (nat c) (drop (nat c) xs) \<noteq> [])"
    proof (cases "drop (nat c) xs = []")
      case True
      then show ?thesis using less.prems c0 by (auto simp: xs_def)
    next
      case False
      then have "chunks_of (nat c) (drop (nat c) xs) \<noteq> []" using c0 by (simp add: chunks_of_ne)
      moreover have "i + c < int (length urls)" using False less.prems c0 by (auto simp: xs_def)
      ultimately show ?thesis by simp
    qed
    have tr: "chunked_trace d (chunks_of (nat c) xs) =
        map Invoke ch @ [Join ch] @ (if i + c < int (length urls) \<and> d > 0 then [Delay d] else []) @
        chunked_trace d (chunks_of (nat c) (drop (nat c) xs))"
      unfolding ch_split using more by (simp add: chunked_trace_Cons)
    show ?thesis
      unfolding unfold xs_def [symmetric] whole
      using loop r e p t f1 f2 f4 tr by simp
  qed
qed

text \<open>With \<open>concurrent \<le> 0\<close> and an item left, the chunk loop does not return.\<close>

lemma chunk_loop_returns_only_forward:
  assumes "chunk_loop P urls c d i a = Some a'"
  shows "\<not> (c \<le> 0 \<and> i < int (length urls))"
proof (rule chunk_loop.raw_induct
    [where P = "\<lambda>pl urls c d i a a'. \<not> (c \<le> 0 \<and> i < int (length urls))", OF _ assms])
  fix f :: "('t, 'u, 'r, 's) stages \<Rightarrow> string list \<Rightarrow> int \<Rightarrow> int \<Rightarrow> int
      \<Rightarrow> ('r, 's) acc \<Rightarrow> ('r, 's) acc option"
    and pl urls c d i a a'
  assume ih: "\<And>pl urls c d i a a'. f pl urls c d i a = Some a' \<Longrightarrow>
      \<not> (c \<le> 0 \<and> i < int (length urls))"
    and body: "(if i < int (length urls)
      then f pl urls c d (i + c) (chunk_step pl urls c d i a) else Some a) = Some a'"
  show "\<not> (c \<le> 0 \<and> i < int (length urls))"
  proof
    assume h: "c \<le> 0 \<and> i < int (length urls)"
    then have "f pl urls c d (i + c) (chunk_step pl urls c d i a) = Some a'"
      using body by simp
    then have "\<not> (c \<le> 0 \<and> i + c < int (length urls))" by (rule ih)
    then show False using h by simp
  qed
qed

lemma chunk_loop_diverges:
  "c \<le> 0 \<Longrightarrow> i < int (length urls) \<Longrightarrow> chunk_loop P urls c d i a = None"
  using chunk_loop_returns_only_forward [of P urls c d i a]
  by (cases "chunk_loop P urls c d i a") auto



section \<open>One item at a time is a chunk of one\<close>

lemma complete_is_chunk:
  "chunk_completes P [url] st [fst (complete P url st)] (snd (complete P url st))"
proof -
  obtain r st1 where c: "on_call P url st = (r, st1)" by (cases "on_call P url st")
  show ?thesis
  proof (cases r)
    case (Inr out)
    have "dispatched P [url] st [Settled out] st1"
      using c Inr by (auto intro: dispatched_settled dispatched_none)
    moreover have "complete P url st = (out, st1)" using c Inr by (simp add: complete_def)
    ultimately show ?thesis unfolding chunk_completes_def by auto
  next
    case (Inl t)
    have d: "dispatched P [url] st [AwaitInfo t] st1"
      using c Inl by (auto intro: dispatched_waiting dispatched_none)
    obtain r2 st2 where i: "on_info P t st1 = (r2, st2)" by (cases "on_info P t st1")
    show ?thesis
    proof (cases r2)
      case (Inr out)
      have "progress P ([AwaitInfo t], st1) ([AwaitInfo t][0 := Settled out], st2)"
        using i Inr by (intro info_settles) auto
      then have "rtranclp (progress P) ([AwaitInfo t], st1) (map Settled [out], st2)" by simp
      moreover have "complete P url st = (out, st2)"
        using c Inl i Inr by (simp add: complete_def)
      ultimately show ?thesis using d unfolding chunk_completes_def by auto
    next
      case (Inl u)
      obtain out st3 where e: "on_end P u st2 = (out, st3)" by (cases "on_end P u st2")
      have "progress P ([AwaitInfo t], st1) ([AwaitInfo t][0 := AwaitEnd u], st2)"
        using i Inl by (intro info_continues) auto
      then have s1: "progress P ([AwaitInfo t], st1) ([AwaitEnd u], st2)" by simp
      have "progress P ([AwaitEnd u], st2) ([AwaitEnd u][0 := Settled out], st3)"
        using e by (intro end_settles) auto
      then have s2: "progress P ([AwaitEnd u], st2) (map Settled [out], st3)" by simp
      have "rtranclp (progress P) ([AwaitInfo t], st1) (map Settled [out], st3)"
        using s1 s2 by (meson rtranclp.rtrancl_into_rtrancl r_into_rtranclp)
      moreover have "complete P url st = (out, st3)"
        using c \<open>r = Inl t\<close> i Inl e by (simp add: complete_def)
      ultimately show ?thesis using d unfolding chunk_completes_def by auto
    qed
  qed
qed

lemma run_all_is_chunks:
  "chunks_complete P (map (\<lambda>url. [url]) urls) st
     (map (\<lambda>e. [e]) (fst (run_all (complete P) urls st)))
     (snd (run_all (complete P) urls st))"
proof (induction urls arbitrary: st)
  case Nil
  show ?case by (simp add: chunks_none)
next
  case (Cons url rest)
  define out where "out = fst (complete P url st)"
  define st1 where "st1 = snd (complete P url st)"
  have cc: "chunk_completes P [url] st [out] st1"
    unfolding out_def st1_def by (rule complete_is_chunk)
  have "chunks_complete P ([url] # map (\<lambda>url. [url]) rest) st
      (map2 to_entry [url] [out] # map (\<lambda>e. [e]) (fst (run_all (complete P) rest st1)))
      (snd (run_all (complete P) rest st1))"
    by (rule chunks_next [OF cc _ Cons.IH]) simp
  then show ?case
    unfolding run_all_Cons out_def [symmetric] st1_def [symmetric] by simp
qed

section \<open>Rejections that carry a message\<close>

lemma dispatched_no_empty_rejection:
  assumes "rejections_carry_message P" and "dispatched P chunk st ts st'"
  shows "Settled (Inl []) \<notin> set ts"
  using assms(2)
proof (induction rule: dispatched.induct)
  case (dispatched_none st)
  show ?case by simp
next
  case (dispatched_waiting url st t st1 rest ts st2)
  then show ?case by simp
next
  case (dispatched_settled url st out st1 rest ts st2)
  have "out \<noteq> Inl []"
    using assms(1) dispatched_settled.hyps(1) unfolding rejections_carry_message_def by auto
  then show ?case using dispatched_settled.IH by simp
qed

lemma progress_no_empty_rejection:
  assumes "rejections_carry_message P" and "progress P (ts, st) (ts', st')"
    and "Settled (Inl []) \<notin> set ts"
  shows "Settled (Inl []) \<notin> set ts'"
  using assms(2)
proof (cases rule: progress.cases)
  case (info_continues i t u)
  then show ?thesis using assms(3) set_update_subset_insert [of ts i "AwaitEnd u"] by auto
next
  case (info_settles i t out)
  have "out \<noteq> Inl []"
    using assms(1) info_settles(4) unfolding rejections_carry_message_def by auto
  then show ?thesis
    using info_settles assms(3) set_update_subset_insert [of ts i "Settled out"] by auto
next
  case (end_settles i u out)
  have "out \<noteq> Inl []"
    using assms(1) end_settles(4) unfolding rejections_carry_message_def by auto
  then show ?thesis
    using end_settles assms(3) set_update_subset_insert [of ts i "Settled out"] by auto
qed

lemma progress_star_no_empty_rejection:
  assumes "rejections_carry_message P" and "rtranclp (progress P) x y"
    and "Settled (Inl []) \<notin> set (fst x)"
  shows "Settled (Inl []) \<notin> set (fst y)"
  using assms(2,3)
proof (induction rule: rtranclp_induct)
  case base
  then show ?case .
next
  case (step y z)
  have "progress P (fst y, snd y) (fst z, snd z)" using step.hyps(2) by simp
  then show ?case
    using progress_no_empty_rejection [OF assms(1)] step.IH [OF step.prems] by blast
qed

lemma chunk_completes_no_empty_rejection:
  assumes "rejections_carry_message P" and "chunk_completes P chunk st outs st'"
  shows "Inl [] \<notin> set outs"
proof -
  obtain ts0 st0 where d: "dispatched P chunk st ts0 st0"
    and p: "rtranclp (progress P) (ts0, st0) (map Settled outs, st')"
    using assms(2) unfolding chunk_completes_def by blast
  show ?thesis
    using progress_star_no_empty_rejection [OF assms(1) p]
      dispatched_no_empty_rejection [OF assms(1) d] by auto
qed

lemma map2_to_entry_truthy:
  assumes "Inl [] \<notin> set outs" and "e \<in> set (map2 to_entry chunk outs)"
  shows "error_truthy e = is_rejected e"
proof -
  obtain url out where e: "e = to_entry url out" and "out \<in> set outs"
    using assms(2) by (auto dest: set_zip_rightD)
  then have "out \<noteq> Inl []" using assms(1) by auto
  then show ?thesis unfolding e by (cases out) auto
qed

lemma chunks_complete_truthy:
  assumes "rejections_carry_message P" and "chunks_complete P chs st recs st'"
  shows "\<forall>e \<in> set (concat recs). error_truthy e = is_rejected e"
  using assms(2)
proof (induction rule: chunks_complete.induct)
  case (chunks_none st)
  show ?case by simp
next
  case (chunks_next chunk st outs st1 rest recs st2)
  have "Inl [] \<notin> set outs"
    using chunk_completes_no_empty_rejection [OF assms(1) chunks_next.hyps(1)] .
  then have "\<forall>e \<in> set (map2 to_entry chunk outs). error_truthy e = is_rejected e"
    using map2_to_entry_truthy by blast
  then show ?case using chunks_next.IH by auto
qed

lemma chunks_complete_urls:
  assumes "chunks_complete P chs st recs st'"
  shows "map (map entry_url) recs = chs"
  using assms
proof (induction rule: chunks_complete.induct)
  case (chunks_none st)
  show ?case by simp
next
  case (chunks_next chunk st outs st1 rest recs st2)
  then show ?case using map2_to_entry_urls [of outs chunk] by simp
qed

section \<open>The scheduler in either mode\<close>

lemma delays_chunked_trace:
  "delays (chunked_trace d chs) = (if d > 0 then replicate (length chs - 1) d else [])"
  by (induction d chs rule: chunked_trace.induct)
     (auto simp: delays_append delays_map_Invoke)

lemma invoked_chunked_trace: "invoked (chunked_trace d chs) = concat chs"
  by (induction d chs rule: chunked_trace.induct)
     (auto simp: invoked_append invoked_map_Invoke)

lemma invoked_seq_trace: "invoked (seq_trace d es) = map entry_url es"
  by (induction d es rule: seq_trace.induct) auto

lemma delays_seq_trace:
  "delays (seq_trace d es) =
     (if d > 0 then map (\<lambda>e. d) (filter (\<lambda>e. \<not> is_rejected e) (butlast es)) else [])"
  by (induction d es rule: seq_trace.induct) auto

lemma filter_all_but_one:
  assumes "k < length es" "\<not> P (es ! k)" "\<forall>j<length es. j \<noteq> k \<longrightarrow> P (es ! j)"
  shows "filter P es = take k es @ drop (Suc k) es"
    and "filter (\<lambda>e. \<not> P e) es = [es ! k]"
proof -
  have es: "es = take k es @ es ! k # drop (Suc k) es"
    using assms(1) by (simp add: id_take_nth_drop)
  have a: "\<forall>x \<in> set (take k es). P x"
  proof
    fix x assume "x \<in> set (take k es)"
    then obtain j where "j < length (take k es)" "take k es ! j = x"
      by (auto simp: in_set_conv_nth)
    then have "j < length es" "j \<noteq> k" "es ! j = x" using assms(1) by auto
    then show "P x" using assms(3) by auto
  qed
  have b: "\<forall>x \<in> set (drop (Suc k) es). P x"
  proof
    fix x assume "x \<in> set (drop (Suc k) es)"
    then obtain j where "j < length (drop (Suc k) es)" "drop (Suc k) es ! j = x"
      by (auto simp: in_set_conv_nth)
    then have "Suc k + j < length es" "Suc k + j \<noteq> k" "es ! (Suc k + j) = x"
      using assms(1) by auto
    then show "P x" using assms(3) by blast
  qed
  have "filter P es = filter P (take k es) @ filter P (es ! k # drop (Suc k) es)"
    by (subst es) (simp only: filter_append)
  then show "filter P es = take k es @ drop (Suc k) es"
    using a b assms(2) by simp
  have "filter (\<lambda>e. \<not> P e) es =
      filter (\<lambda>e. \<not> P e) (take k es) @ filter (\<lambda>e. \<not> P e) (es ! k # drop (Suc k) es)"
    by (subst es) (simp only: filter_append)
  then show "filter (\<lambda>e. \<not> P e) es = [es ! k]"
    using a b assms(2) by simp
qed

lemma partition_mset:
  "mset (map f (filter (\<lambda>e. \<not> P e) es @ filter P es)) = mset (map f es)"
  by (induction es) auto

lemma partition_length:
  "length (filter (\<lambda>e. \<not> P e) es) + length (filter P es) = length es"
  by (induction es) auto

lemma item_records_urls:
  assumes "1 \<le> c"
  shows "map entry_url (item_records P c picks urls st) = urls"
proof (cases "c = 1")
  case True
  then show ?thesis by (simp add: item_records_def run_all_urls)
next
  case False
  have c: "0 < nat c" using assms by simp
  have "map entry_url (concat (fst (run_chunks P picks (chunks_of (nat c) urls) st))) =
      concat (map (map entry_url) (fst (run_chunks P picks (chunks_of (nat c) urls) st)))"
    by (simp add: map_concat)
  then show ?thesis
    using False by (simp add: item_records_def run_chunks_urls concat_chunks_of [OF c])
qed

lemma item_records_length:
  "1 \<le> c \<Longrightarrow> length (item_records P c picks urls st) = length urls"
  using item_records_urls [of c P picks urls st] by (metis length_map)

lemma sorted_as_error_seq: "sorted_as_error 1 = is_rejected"
  by (rule ext) (simp add: sorted_as_error_def)

lemma sorted_as_error_chunked: "c \<noteq> 1 \<Longrightarrow> sorted_as_error c = error_truthy"
  by (rule ext) (simp add: sorted_as_error_def)

text \<open>
  What a run comes to, in either mode: it returns; the records of the items are sorted
  into results and errors; the units of work were carried out one after the other as
  the specification asks of chunks; and the trace is that of the mode.
\<close>

lemma schedule_run:
  assumes "1 \<le> c"
  shows "\<exists>a recs. schedule P urls c d picks st = Some a \<and>
     concat recs = item_records P c picks urls st \<and>
     chunks_complete P (units c urls) st recs (pstate a) \<and>
     results a = filter (\<lambda>e. \<not> sorted_as_error c e) (item_records P c picks urls st) \<and>
     errors a = filter (sorted_as_error c) (item_records P c picks urls st) \<and>
     trace a = (if c = 1 then seq_trace d (item_records P c picks urls st)
                else chunked_trace d (chunks_of (nat c) urls))"
proof (cases "c = 1")
  case True
  let ?a0 = "\<lparr>results = [], errors = [], trace = [], pstate = st, event_order = picks\<rparr>"
  define a where "a = seq_loop (complete P) urls d 0 ?a0"
  define X where "X = fst (run_all (complete P) urls st)"
  have s: "schedule P urls c d picks st = Some a"
    using True by (simp add: schedule_def a_def)
  have f: "results a = filter (\<lambda>e. \<not> is_rejected e) X" "errors a = filter is_rejected X"
    "pstate a = snd (run_all (complete P) urls st)" "trace a = seq_trace d X"
    using seq_loop_char [of "complete P" urls d 0 ?a0]
    by (simp_all add: a_def X_def)
  have r: "chunks_complete P (units c urls) st (map (\<lambda>e. [e]) X) (pstate a)"
    unfolding f(3) X_def using True run_all_is_chunks [of P urls st] by (simp add: units_def)
  have x: "item_records P c picks urls st = X" using True by (simp add: item_records_def X_def)
  have k: "concat (map (\<lambda>e. [e]) X) = X" by (induction X) auto
  show ?thesis
    unfolding x using s r f(1,2,4) k True
    by (intro exI [of _ a] exI [of _ "map (\<lambda>e. [e]) X"]) (simp add: sorted_as_error_seq)
next
  case False
  then have c: "1 < c" using assms by simp
  let ?a0 = "\<lparr>results = [], errors = [], trace = [], pstate = st, event_order = picks\<rparr>"
  define rs where "rs = run_chunks P picks (chunks_of (nat c) urls) st"
  obtain a where l: "chunk_loop P urls c d 0 ?a0 = Some a"
    and f: "results a = filter (\<lambda>e. \<not> error_truthy e) (concat (fst rs))"
      "errors a = filter error_truthy (concat (fst rs))"
      "pstate a = snd (snd rs)"
      "trace a = chunked_trace d (chunks_of (nat c) urls)"
    using chunk_loop_char [OF assms, of 0 P urls d ?a0]
    by (auto simp: rs_def)
  have s: "schedule P urls c d picks st = Some a"
    using False l by (simp add: schedule_def)
  have r: "chunks_complete P (units c urls) st (fst rs) (pstate a)"
    unfolding f(3) rs_def using False run_chunks_complete [of P "chunks_of (nat c) urls" st picks]
    by (simp add: units_def)
  have x: "item_records P c picks urls st = concat (fst rs)"
    using False by (simp add: item_records_def rs_def)
  show ?thesis
    unfolding x using s r f(1,2,4) False
    by (intro exI [of _ a] exI [of _ "fst rs"]) (simp add: sorted_as_error_chunked)
qed

lemma schedule_invoked:
  assumes "1 \<le> c" and "schedule P urls c d picks st = Some a"
  shows "invoked (trace a) = urls"
proof -
  obtain a' where "schedule P urls c d picks st = Some a'"
    and t: "trace a' = (if c = 1 then seq_trace d (item_records P c picks urls st)
                else chunked_trace d (chunks_of (nat c) urls))"
    using schedule_run [OF assms(1), of P urls d picks st] by blast
  then have a: "a' = a" using assms(2) by simp
  have c: "0 < nat c" using assms(1) by simp
  show ?thesis
  proof (cases "c = 1")
    case True
    then show ?thesis
      using t item_records_urls [OF assms(1), of P picks urls st] unfolding a
      by (simp add: invoked_seq_trace)
  next
    case False
    then show ?thesis
      using t unfolding a by (simp add: invoked_chunked_trace concat_chunks_of [OF c])
  qed
qed

lemma schedule_diverges:
  "c \<le> 0 \<Longrightarrow> urls \<noteq> [] \<Longrightarrow> schedule P urls c d picks st = None"
  by (simp add: schedule_def chunk_loop_diverges)

lemma records_truthy:
  assumes "1 \<le> c" and "rejections_carry_message P"
    and "e \<in> set (item_records P c picks urls st)"
  shows "sorted_as_error c e = is_rejected e"
proof -
  obtain a recs where "schedule P urls c 0 picks st = Some a"
    and "concat recs = item_records P c picks urls st"
    and "chunks_complete P (units c urls) st recs (pstate a)"
    using schedule_run [OF assms(1), of P urls 0 picks st] by blast
  then have "error_truthy e = is_rejected e"
    using chunks_complete_truthy [OF assms(2)] assms(3) by metis
  then show ?thesis by (simp add: sorted_as_error_def)
qed

section \<open>downloadMp3 piece by piece\<close>

lemma complete_mp3_stages: "complete (mp3_stages e cn) url w = downloadMp3 e url cn w"
  by (simp add: complete_def mp3_stages_def mp3_call_def mp3_info_def mp3_end_def
      downloadMp3_def Let_def log_io_def split: option.splits sum.splits)

lemma mp3_rejections_carry_message: "rejections_carry_message (mp3_stages e cn)"
  by (auto simp: rejections_carry_message_def mp3_stages_def mp3_call_def mp3_info_def
      mp3_end_def getVideoInfo_def Let_def split: option.splits sum.splits if_splits)

text \<open>
  Two items of one chunk with the same output file. When the awaited values arrive
  before any event of \<open>ffmpeg\<close> (the default order), both calls pass the existence check
  of line 83 and both download. When the event of the first call arrives before the
  awaited value of the second, the second call finds the file and is skipped, as it is
  in sequential mode.
\<close>

lemma same_output_in_one_chunk:
  "map (\<lambda>e. case e of Fulfilled url r \<Rightarrow> skipped r | Rejected url msg \<Rightarrow> None)
     (item_records (mp3_stages demo_env None) 2 []
        [''https://youtu.be/AAAAAAAAAAA'', ''https://youtu.be/AAAAAAAAAAA''] (demo_world [])) =
     [None, None] \<and>
   map (\<lambda>e. case e of Fulfilled url r \<Rightarrow> skipped r | Rejected url msg \<Rightarrow> None)
     (item_records (mp3_stages demo_env None) 2 [0, 1]
        [''https://youtu.be/AAAAAAAAAAA'', ''https://youtu.be/AAAAAAAAAAA''] (demo_world [])) =
     [None, Some True] \<and>
   map (\<lambda>e. case e of Fulfilled url r \<Rightarrow> skipped r | Rejected url msg \<Rightarrow> None)
     (item_records (mp3_stages demo_env None) 1 []
        [''https://youtu.be/AAAAAAAAAAA'', ''https://youtu.be/AAAAAAAAAAA''] (demo_world [])) =
     [None, Some True]"
  by code_simp

text \<open>
  With one rejection more in the chunk than the sequential replay has: of three items of
  one chunk, the first two for the same output file and the third without a video id,
  the second is not skipped, so where its \<open>ffmpeg\<close> fails the report has one result and
  two errors.
\<close>

lemma same_output_second_fails:
  "map_option (\<lambda>a. (map entry_url (results a), map entry_url (errors a)))
     (schedule
        (mp3_stages
           (demo_env\<lparr>ytdl_getInfo := (\<lambda>videoId.
                        Inr \<lparr>vd_title = ''Same title'', lengthSeconds = 185,
                             author_name = ''Artist''\<rparr>),
                      ytdl_ffmpeg := (\<lambda>videoId quality outputPath.
                        if videoId = ''YYYYYYYYYYY'' then Inl ''Conversion failed''
                        else Inr ''ID3'')\<rparr>) None)
        [''https://youtu.be/XXXXXXXXXXX'', ''https://youtu.be/YYYYYYYYYYY'',
         ''https://youtube.com/''] 3 15000 [] (demo_world [])) =
   Some ([''https://youtu.be/XXXXXXXXXXX''],
         [''https://youtu.be/YYYYYYYYYYY'', ''https://youtube.com/''])"
  by code_simp

section \<open>Partial failure\<close>

text \<open>
  Claim C1. Let exactly one item \<open>k\<close> of the selected sublist be rejected and every
  other item be fulfilled, in a run of any pipeline, in sequential mode or in chunks of
  \<open>c\<close> with any order of arrival of the awaited values and events (for the chunked mode
  the rejections carry a message, as those of \<open>downloadMp3\<close> do). Then the run returns; it
  has carried out every unit of work, one after the other, and the records are those of
  the items; the results are the records of the other \<open>N - 1\<close> items, the only error is
  the record of item \<open>k\<close>, which carries the URL of item \<open>k\<close>; and the pipeline is invoked
  on every item of the sublist, those after \<open>k\<close> included.
\<close>

theorem partial_failure_tolerance:
  assumes "1 \<le> c" and "c = 1 \<or> rejections_carry_message P" and "k < length urls"
    and "is_rejected (item_records P c picks urls st ! k)"
    and "\<forall>j<length urls. j \<noteq> k \<longrightarrow> \<not> is_rejected (item_records P c picks urls st ! j)"
  shows "\<exists>a recs. schedule P urls c d picks st = Some a \<and>
           concat recs = item_records P c picks urls st \<and>
           chunks_complete P (units c urls) st recs (pstate a) \<and>
           results a = take k (item_records P c picks urls st) @
                       drop (Suc k) (item_records P c picks urls st) \<and>
           length (results a) = length urls - 1 \<and>
           errors a = [item_records P c picks urls st ! k] \<and>
           entry_url (item_records P c picks urls st ! k) = urls ! k \<and>
           invoked (trace a) = urls"
proof -
  define es where "es = item_records P c picks urls st"
  have len: "length es = length urls" by (simp add: es_def item_records_length [OF assms(1)])
  obtain a recs where a: "schedule P urls c d picks st = Some a"
    and cr: "concat recs = es"
    and cc: "chunks_complete P (units c urls) st recs (pstate a)"
    and r: "results a = filter (\<lambda>e. \<not> sorted_as_error c e) es"
    and er: "errors a = filter (sorted_as_error c) es"
    using schedule_run [OF assms(1), of P urls d picks st] unfolding es_def by blast
  have same: "sorted_as_error c e = is_rejected e" if "e \<in> set es" for e
  proof (cases "c = 1")
    case True
    then show ?thesis by (simp add: sorted_as_error_def)
  next
    case False
    then have "rejections_carry_message P" using assms(2) by simp
    then show ?thesis
      using that unfolding es_def by (rule records_truthy [OF assms(1)])
  qed
  have r1: "results a = filter (\<lambda>e. \<not> is_rejected e) es"
    unfolding r by (rule filter_cong) (simp_all add: same)
  have e1: "errors a = filter is_rejected es"
    unfolding er by (rule filter_cong) (simp_all add: same)
  have k: "k < length es" using assms(3) len by simp
  have nk: "\<not> \<not> is_rejected (es ! k)" using assms(4) by (simp add: es_def)
  have others: "\<forall>j<length es. j \<noteq> k \<longrightarrow> \<not> is_rejected (es ! j)"
    using assms(5) len by (simp add: es_def)
  have r': "results a = take k es @ drop (Suc k) es"
    using filter_all_but_one(1) [OF k nk others] r1 by simp
  have e': "errors a = [es ! k]"
    using filter_all_but_one(2) [OF k nk others] e1 by simp
  have "map entry_url es ! k = urls ! k"
    by (simp add: es_def item_records_urls [OF assms(1)])
  then have u: "entry_url (es ! k) = urls ! k" using k by simp
  have l: "length (results a) = length urls - 1"
    using r' k len by simp
  have i: "invoked (trace a) = urls" by (rule schedule_invoked [OF assms(1) a])
  show ?thesis
    unfolding es_def [symmetric] using a cr cc r' l e' u i by blast
qed

theorem partial_failure_tolerance_witness:
  "\<exists>a. schedule (mp3_stages demo_env None)
          [''https://youtu.be/AAAAAAAAAAA'', ''https://youtu.be/BBBBBBBBBBB'',
           ''https://youtu.be/CCCCCCCCCCC''] 2 15000 [] (demo_world []) = Some a \<and>
        length (results a) = 2 \<and>
        map entry_url (errors a) = [''https://youtu.be/BBBBBBBBBBB''] \<and>
        invoked (trace a) =
          [''https://youtu.be/AAAAAAAAAAA'', ''https://youtu.be/BBBBBBBBBBB'',
           ''https://youtu.be/CCCCCCCCCCC'']"
proof -
  let ?urls = "[''https://youtu.be/AAAAAAAAAAA'', ''https://youtu.be/BBBBBBBBBBB'',
           ''https://youtu.be/CCCCCCCCCCC'']"
  let ?X = "item_records (mp3_stages demo_env None) 2 [] ?urls (demo_world [])"
  have h1: "(1::int) \<le> 2" by simp
  have h2: "(2::int) = 1 \<or> rejections_carry_message (mp3_stages demo_env None)"
    by (simp add: mp3_rejections_carry_message)
  have h3: "(1::nat) < length ?urls" by simp
  have h4: "is_rejected (?X ! 1)" by code_simp
  have h5: "\<forall>j<length ?urls. j \<noteq> 1 \<longrightarrow> \<not> is_rejected (?X ! j)" by code_simp
  from partial_failure_tolerance [OF h1 h2 h3 h4 h5, of 15000]
  show ?thesis by auto
qed

section \<open>Chunking, classification and counting\<close>

text \<open>
  Claim C2. With \<open>concurrent = c > 1\<close>, for every pipeline and every order of arrival,
  the run returns, and it is a run of the consecutive chunks of size \<open>c\<close>: the chunks
  concatenate to the sublist, every chunk but the last has exactly \<open>c\<close> items, no chunk is
  empty or larger than \<open>c\<close>; every item of a chunk is called, every call of the chunk has
  settled before the next chunk is called, and the last chunk leaves the state the run
  ends in; the records, one per item and chunk by chunk, are what the results and the
  errors hold; the trace is that of the chunks, and a positive delay is slept once after
  each chunk except the last.
\<close>

theorem chunked_partition_and_delays:
  assumes "1 < c"
  shows "\<exists>a recs. schedule P urls c d picks st = Some a \<and>
           trace a = chunked_trace d (chunks_of (nat c) urls) \<and>
           concat (chunks_of (nat c) urls) = urls \<and>
           (\<forall>ch \<in> set (butlast (chunks_of (nat c) urls)). length ch = nat c) \<and>
           (\<forall>ch \<in> set (chunks_of (nat c) urls). ch \<noteq> [] \<and> length ch \<le> nat c) \<and>
           length (chunks_of (nat c) urls) = (length urls + nat c - 1) div nat c \<and>
           delays (trace a) =
             (if d > 0 then replicate (length (chunks_of (nat c) urls) - 1) d else []) \<and>
           chunks_complete P (chunks_of (nat c) urls) st recs (pstate a) \<and>
           map (map entry_url) recs = chunks_of (nat c) urls \<and>
           results a = filter (\<lambda>e. \<not> error_truthy e) (concat recs) \<and>
           errors a = filter error_truthy (concat recs)"
proof -
  have c: "0 < nat c" and c1: "1 \<le> c" and cn: "c \<noteq> 1" using assms by simp_all
  obtain a recs where a: "schedule P urls c d picks st = Some a"
    and cr: "concat recs = item_records P c picks urls st"
    and cc: "chunks_complete P (units c urls) st recs (pstate a)"
    and r: "results a = filter (\<lambda>e. \<not> sorted_as_error c e) (item_records P c picks urls st)"
    and e: "errors a = filter (sorted_as_error c) (item_records P c picks urls st)"
    and t: "trace a = (if c = 1 then seq_trace d (item_records P c picks urls st)
                else chunked_trace d (chunks_of (nat c) urls))"
    using schedule_run [OF c1, of P urls d picks st] by blast
  have t': "trace a = chunked_trace d (chunks_of (nat c) urls)" using t cn by simp
  have cc': "chunks_complete P (chunks_of (nat c) urls) st recs (pstate a)"
    using cc cn by (simp add: units_def)
  have u: "map (map entry_url) recs = chunks_of (nat c) urls"
    by (rule chunks_complete_urls [OF cc'])
  have r': "results a = filter (\<lambda>e. \<not> error_truthy e) (concat recs)"
    using r cn by (simp add: cr sorted_as_error_chunked)
  have e': "errors a = filter error_truthy (concat recs)"
    using e cn by (simp add: cr sorted_as_error_chunked)
  have dl: "delays (trace a) =
      (if d > 0 then replicate (length (chunks_of (nat c) urls) - 1) d else [])"
    unfolding t' by (rule delays_chunked_trace)
  have b: "\<forall>ch \<in> set (butlast (chunks_of (nat c) urls)). length ch = nat c"
    using chunks_of_butlast by blast
  have n: "\<forall>ch \<in> set (chunks_of (nat c) urls). ch \<noteq> [] \<and> length ch \<le> nat c"
    using chunks_of_nonempty by blast
  show ?thesis
    by (intro exI [of _ a] exI [of _ recs] conjI a t' concat_chunks_of [OF c] b n
        length_chunks_of [OF c] dl cc' u r' e')
qed

theorem chunked_partition_and_delays_witness:
  "\<exists>a. schedule probe [''u1'', ''u2'', ''u3'', ''u4'', ''u5'', ''u6'', ''u7''] 3 15000 [] []
          = Some a \<and>
        trace a =
          [Invoke ''u1'', Invoke ''u2'', Invoke ''u3'', Join [''u1'', ''u2'', ''u3''], Delay 15000,
           Invoke ''u4'', Invoke ''u5'', Invoke ''u6'', Join [''u4'', ''u5'', ''u6''], Delay 15000,
           Invoke ''u7'', Join [''u7'']] \<and>
        map length (chunks_of 3 [''u1'', ''u2'', ''u3'', ''u4'', ''u5'', ''u6'', ''u7'']) = [3, 3, 1] \<and>
        delays (trace a) = [15000, 15000] \<and>
        map entry_url (results a) = [''u1'', ''u2'', ''u3'', ''u4'', ''u5'', ''u6'', ''u7''] \<and>
        errors a = [] \<and>
        pstate a =
          [''call u1'', ''call u2'', ''call u3'', ''info u1'', ''info u2'', ''info u3'',
           ''end u1'', ''end u2'', ''end u3'',
           ''call u4'', ''call u5'', ''call u6'', ''info u4'', ''info u5'', ''info u6'',
           ''end u4'', ''end u5'', ''end u6'',
           ''call u7'', ''info u7'', ''end u7'']"
proof -
  let ?urls = "[''u1'', ''u2'', ''u3'', ''u4'', ''u5'', ''u6'', ''u7'']"
  let ?log = "[''call u1'', ''call u2'', ''call u3'', ''info u1'', ''info u2'', ''info u3'',
           ''end u1'', ''end u2'', ''end u3'',
           ''call u4'', ''call u5'', ''call u6'', ''info u4'', ''info u5'', ''info u6'',
           ''end u4'', ''end u5'', ''end u6'',
           ''call u7'', ''info u7'', ''end u7'']"
  have h: "(1::int) < 3" by simp
  have ch: "chunks_of (nat 3) ?urls = [[''u1'', ''u2'', ''u3''], [''u4'', ''u5'', ''u6''], [''u7'']]"
    by code_simp
  have ch': "chunks_of 3 ?urls = [[''u1'', ''u2'', ''u3''], [''u4'', ''u5'', ''u6''], [''u7'']]"
    by code_simp
  have ran: "map_option (\<lambda>a. (pstate a, map entry_url (results a), map entry_url (errors a)))
       (schedule probe ?urls 3 15000 [] []) = Some (?log, ?urls, [])"
    by code_simp
  from chunked_partition_and_delays [OF h, of probe ?urls 15000 "[]" "[]"]
  obtain a where a: "schedule probe ?urls 3 15000 [] [] = Some a"
    and t: "trace a = chunked_trace 15000 (chunks_of (nat 3) ?urls)"
    and d: "delays (trace a) =
      (if (15000::int) > 0 then replicate (length (chunks_of (nat 3) ?urls) - 1) 15000 else [])"
    by (elim exE conjE) (rule that, assumption+)
  have p: "pstate a = ?log" and r: "map entry_url (results a) = ?urls"
    and e: "map entry_url (errors a) = []"
    using ran unfolding a by simp_all
  have e0: "errors a = []" using e by simp
  have t0: "trace a =
          [Invoke ''u1'', Invoke ''u2'', Invoke ''u3'', Join [''u1'', ''u2'', ''u3''], Delay 15000,
           Invoke ''u4'', Invoke ''u5'', Invoke ''u6'', Join [''u4'', ''u5'', ''u6''], Delay 15000,
           Invoke ''u7'', Join [''u7'']]"
    unfolding t ch by simp
  have d0: "delays (trace a) = [15000, 15000]"
    unfolding d ch by (simp add: numeral_2_eq_2)
  have l: "map length (chunks_of 3 ?urls) = [3, 3, 1]" unfolding ch' by simp
  show ?thesis
    by (intro exI [of _ a] conjI a t0 l d0 r e0 p)
qed

text \<open>
  Claim C10. In chunked mode the records are sorted by the truthiness of their
  \<open>error\<close> field: the results are the records whose field is not truthy, the errors
  those whose field is. So a rejection whose message is the empty string is pushed on
  \<open>results\<close> and not on \<open>errors\<close>, and is counted among the successes of the report.
\<close>

theorem empty_message_counted_as_success:
  assumes "1 < c" and "k < length urls"
    and "item_records P c picks urls st ! k = Rejected (urls ! k) []"
  shows "\<exists>a recs. schedule P urls c d picks st = Some a \<and>
           concat recs = item_records P c picks urls st \<and>
           chunks_complete P (chunks_of (nat c) urls) st recs (pstate a) \<and>
           results a = filter (\<lambda>e. \<not> error_truthy e) (item_records P c picks urls st) \<and>
           errors a = filter error_truthy (item_records P c picks urls st) \<and>
           Rejected (urls ! k) [] \<in> set (results a) \<and>
           Rejected (urls ! k) [] \<notin> set (errors a) \<and>
           length (results a) + length (errors a) = length urls"
proof -
  have c1: "1 \<le> c" and cn: "c \<noteq> 1" using assms(1) by simp_all
  define es where "es = item_records P c picks urls st"
  obtain a recs where a: "schedule P urls c d picks st = Some a"
    and cr: "concat recs = es"
    and cc: "chunks_complete P (units c urls) st recs (pstate a)"
    and r: "results a = filter (\<lambda>e. \<not> sorted_as_error c e) es"
    and e: "errors a = filter (sorted_as_error c) es"
    using schedule_run [OF c1, of P urls d picks st] unfolding es_def by blast
  have cc': "chunks_complete P (chunks_of (nat c) urls) st recs (pstate a)"
    using cc cn by (simp add: units_def)
  have r': "results a = filter (\<lambda>e. \<not> error_truthy e) es"
    using r cn by (simp add: sorted_as_error_chunked)
  have e': "errors a = filter error_truthy es"
    using e cn by (simp add: sorted_as_error_chunked)
  have len: "length es = length urls" by (simp add: es_def item_records_length [OF c1])
  then have "k < length es" using assms(2) by simp
  then have "Rejected (urls ! k) [] \<in> set es"
    using assms(3) unfolding es_def [symmetric] by (metis nth_mem)
  then have m: "Rejected (urls ! k) [] \<in> set (results a)" "Rejected (urls ! k) [] \<notin> set (errors a)"
    using r' e' by simp_all
  have l: "length (results a) + length (errors a) = length urls"
    using r' e' partition_length [of error_truthy es] len by simp
  show ?thesis
    unfolding es_def [symmetric] using a cr cc' r' e' m l by blast
qed

theorem empty_message_counted_as_success_witness:
  "\<exists>a. schedule probe [''u1'', ''silent'', ''loud''] 2 15000 [] [] = Some a \<and>
        results a = [Fulfilled ''u1'' (), Rejected ''silent'' []] \<and>
        errors a = [Rejected ''loud'' ''boom''] \<and>
        Rejected ''silent'' [] \<in> set (results a) \<and>
        Rejected ''silent'' [] \<notin> set (errors a) \<and>
        length (results a) + length (errors a) = 3"
proof -
  let ?urls = "[''u1'', ''silent'', ''loud'']"
  have h1: "(1::int) < 2" by simp
  have h2: "(1::nat) < length ?urls" by simp
  have x: "item_records probe 2 [] ?urls [] =
      [Fulfilled ''u1'' (), Rejected ''silent'' [], Rejected ''loud'' ''boom'']"
    by code_simp
  have h3: "item_records probe 2 [] ?urls [] ! 1 = Rejected (?urls ! 1) []"
    unfolding x by simp
  from empty_message_counted_as_success [OF h1 h2 h3, of 15000]
  obtain a where "schedule probe ?urls 2 15000 [] [] = Some a"
    and "results a = filter (\<lambda>e. \<not> error_truthy e) (item_records probe 2 [] ?urls [])"
    and "errors a = filter error_truthy (item_records probe 2 [] ?urls [])"
    by blast
  then show ?thesis unfolding x by simp

qed

text \<open>In sequential mode the same record is an error: the \<open>catch\<close> block does not look at
  the message.\<close>

lemma empty_message_sequential:
  assumes "k < length urls"
    and "item_records P 1 picks urls st ! k = Rejected (urls ! k) []"
  shows "\<exists>a. schedule P urls 1 d picks st = Some a \<and> Rejected (urls ! k) [] \<in> set (errors a)"
proof -
  define es where "es = item_records P 1 picks urls st"
  obtain a where a: "schedule P urls 1 d picks st = Some a"
    and e: "errors a = filter (sorted_as_error 1) es"
    using schedule_run [of 1 P urls d picks st] unfolding es_def by auto
  have "k < length es" using assms(1) by (simp add: es_def item_records_length)
  then have "Rejected (urls ! k) [] \<in> set es"
    using assms(2) unfolding es_def [symmetric] by (metis nth_mem)
  then show ?thesis using a e by (simp add: sorted_as_error_seq)
qed

lemma schedule_one_record_each:
  assumes "1 \<le> c"
  shows "\<exists>a. schedule P urls c d picks st = Some a \<and>
           length (results a) + length (errors a) = length urls \<and>
           mset (map entry_url (results a @ errors a)) = mset urls"
proof -
  define es where "es = item_records P c picks urls st"
  obtain a where a: "schedule P urls c d picks st = Some a"
    and r: "results a = filter (\<lambda>e. \<not> sorted_as_error c e) es"
    and e: "errors a = filter (sorted_as_error c) es"
    using schedule_run [OF assms, of P urls d picks st] unfolding es_def by blast
  have "length (results a) + length (errors a) = length urls"
    unfolding r e partition_length by (simp add: es_def item_records_length [OF assms])
  moreover have "mset (map entry_url (results a @ errors a)) = mset urls"
    unfolding r e partition_mset by (simp add: es_def item_records_urls [OF assms])
  ultimately show ?thesis using a by blast
qed

text \<open>
  Claim C9. When the source file has at least one recognised line and
  \<open>concurrent \<ge> 1\<close>, the run returns a report in which the results and the errors together
  hold exactly one record per selected item: their lengths add up to \<open>total\<close>, the size
  of the selection, and their URLs are the selected URLs with their multiplicities.
\<close>

theorem one_record_per_item:
  assumes "files w filePath = Some content" and "parse_urls content \<noteq> []"
    and "1 \<le> concurrent opts"
  shows "\<exists>rep. downloadFromFile e filePath opts w = Some (Inr rep) \<and>
           total rep = length (select_range (parse_urls content) (startIndex opts) (endIndex opts)) \<and>
           length (results rep) + length (errors rep) = total rep \<and>
           mset (map entry_url (results rep @ errors rep)) =
             mset (select_range (parse_urls content) (startIndex opts) (endIndex opts))"
proof -
  define sel where "sel = select_range (parse_urls content) (startIndex opts) (endIndex opts)"
  obtain a where a: "schedule (mp3_stages e None) sel (concurrent opts) (delay opts)
        (arrivals e) w = Some a"
    and l: "length (results a) + length (errors a) = length sel"
    and m: "mset (map entry_url (results a @ errors a)) = mset sel"
    using schedule_one_record_each [OF assms(3), of "mp3_stages e None" sel "delay opts"
        "arrivals e" w] by blast
  show ?thesis
    using assms(1,2) a l m
    by (simp add: downloadFromFile_def Let_def sel_def [symmetric])
qed

theorem one_record_per_item_witness:
  "\<exists>rep. downloadFromFile demo_env ''playlist.txt'' (default_options\<lparr>concurrent := 2\<rparr>)
            (demo_world [''https://youtu.be/AAAAAAAAAAA'', ''https://youtu.be/BBBBBBBBBBB'',
                         ''https://youtu.be/CCCCCCCCCCC'']) = Some (Inr rep) \<and>
         total rep = 3 \<and> length (results rep) + length (errors rep) = 3"
proof -
  let ?lines = "[''https://youtu.be/AAAAAAAAAAA'', ''https://youtu.be/BBBBBBBBBBB'',
                         ''https://youtu.be/CCCCCCCCCCC'']"
  have h1: "files (demo_world ?lines) ''playlist.txt'' = Some (join_nl ?lines)"
    by (simp add: demo_world_def)
  have p: "parse_urls (join_nl ?lines) = ?lines" by code_simp
  have h2: "parse_urls (join_nl ?lines) \<noteq> []" unfolding p by simp
  have h3: "1 \<le> concurrent (default_options\<lparr>concurrent := 2\<rparr>)" by simp
  have s: "select_range ?lines (startIndex (default_options\<lparr>concurrent := 2\<rparr>))
             (endIndex (default_options\<lparr>concurrent := 2\<rparr>)) = ?lines"
    by code_simp
  from one_record_per_item [OF h1 h2 h3, of demo_env]
  show ?thesis unfolding p s by auto
qed

section \<open>The delay of the sequential mode\<close>

lemma sequential_trace:
  "\<exists>a. schedule P urls 1 d picks st = Some a \<and>
        invoked (trace a) = urls \<and>
        delays (trace a) =
          (if d > 0
           then map (\<lambda>e. d) (filter (\<lambda>e. \<not> is_rejected e)
                  (butlast (fst (run_all (complete P) urls st))))
           else [])"
  using schedule_run [of 1 P urls d picks st]
  by (auto simp: item_records_def invoked_seq_trace delays_seq_trace run_all_urls)

lemma sequential_delays_when_all_succeed:
  assumes "0 < d" and "\<forall>e \<in> set (fst (run_all (complete P) urls st)). \<not> is_rejected e"
  shows "\<exists>a. schedule P urls 1 d picks st = Some a \<and>
           delays (trace a) = replicate (length urls - 1) d"
proof -
  define es where "es = fst (run_all (complete P) urls st)"
  have "\<forall>e \<in> set (butlast es). \<not> is_rejected e"
    using assms(2) unfolding es_def [symmetric] by (auto dest: in_set_butlastD)
  then have "filter (\<lambda>e. \<not> is_rejected e) (butlast es) = butlast es" by simp
  moreover have "length (butlast es) = length urls - 1" by (simp add: es_def run_all_length)
  ultimately have "map (\<lambda>e. d) (filter (\<lambda>e. \<not> is_rejected e) (butlast es)) =
      replicate (length urls - 1) d"
    by (simp add: map_replicate_const)
  then show ?thesis
    using sequential_trace [of P urls d picks st] assms(1) unfolding es_def by auto
qed

text \<open>
  Claim C3 says that the sequential mode sleeps after every item except the last. The
  code does not when the item is rejected: on the list of the two lines
  \<open>https://youtube.com/\<close> (recognised by the reader, without a video id) and
  \<open>https://youtu.be/AAAAAAAAAAA\<close>, with the default delay of 15000 ms, both items are
  invoked in order, the first is recorded as an error and no delay is slept at all.
\<close>

theorem sequential_delay_skipped_after_failure:
  "map_option
     (map_sum error_message
        (\<lambda>rep. (invoked (trace rep), delays (trace rep), map entry_url (errors rep),
                length (results rep), total rep)))
     (downloadFromFile demo_env ''playlist.txt'' default_options
        (demo_world [''https://youtube.com/'', ''https://youtu.be/AAAAAAAAAAA''])) =
   Some (Inr ([''https://youtube.com/'', ''https://youtu.be/AAAAAAAAAAA''], [],
              [''https://youtube.com/''], 1, 2))"
  by code_simp

section \<open>Skipping an existing output\<close>

lemma downloadMp3_existing:
  assumes "extractVideoId url = Some videoId"
    and "getVideoInfo e videoId = Inr vi"
    and "files w (path_join e (outputDir e) (chosen_filename cn vi)) \<noteq> None"
  shows "downloadMp3 e url cn w =
     (Inr \<lparr>success = True, filename = chosen_filename cn vi,
           message = Some ''File already exists'', skipped = Some True,
           path = None, title = None\<rparr>,
      w\<lparr>io_log := io_log w @
           [GetInfo videoId, ExistsSync (path_join e (outputDir e) (chosen_filename cn vi))]\<rparr>)"
  using assms by (simp add: downloadMp3_def Let_def log_io_def)

lemma downloadMp3_fulfilled:
  assumes "downloadMp3 e url cn w = (Inr r, w')"
  shows "\<exists>videoId vi. extractVideoId url = Some videoId \<and> getVideoInfo e videoId = Inr vi \<and>
           filename r = chosen_filename cn vi \<and>
           files w' (path_join e (outputDir e) (chosen_filename cn vi)) \<noteq> None"
  using assms
  by (auto simp: downloadMp3_def Let_def log_io_def
           split: option.splits sum.splits if_splits)

text \<open>
  Claim C6, as the code has it. When the URL carries a video id, the metadata request
  succeeds and a file exists at the output path derived from the title, \<open>downloadMp3\<close>
  is fulfilled with \<open>skipped: true\<close>, and what it did is the metadata request and one
  existence check: no stream is fetched, nothing is transcoded, no file is written. Hence
  a second run after a fulfilled first run, with the same collaborators, is fulfilled
  with \<open>skipped: true\<close> for the same file name in the same way.
\<close>

theorem skip_on_existing:
  "(extractVideoId url = Some videoId \<and> getVideoInfo e videoId = Inr vi \<and>
    files w (path_join e (outputDir e) (chosen_filename cn vi)) \<noteq> None \<longrightarrow>
      downloadMp3 e url cn w =
        (Inr \<lparr>success = True, filename = chosen_filename cn vi,
              message = Some ''File already exists'', skipped = Some True,
              path = None, title = None\<rparr>,
         w\<lparr>io_log := io_log w @
              [GetInfo videoId,
               ExistsSync (path_join e (outputDir e) (chosen_filename cn vi))]\<rparr>)) \<and>
   (downloadMp3 e url cn w = (Inr r, w') \<longrightarrow>
      (\<exists>videoId' outputPath.
         downloadMp3 e url cn w' =
           (Inr \<lparr>success = True, filename = filename r,
                 message = Some ''File already exists'', skipped = Some True,
                 path = None, title = None\<rparr>,
            w'\<lparr>io_log := io_log w' @ [GetInfo videoId', ExistsSync outputPath]\<rparr>)))"
proof (intro conjI impI)
  assume "extractVideoId url = Some videoId \<and> getVideoInfo e videoId = Inr vi \<and>
    files w (path_join e (outputDir e) (chosen_filename cn vi)) \<noteq> None"
  then show "downloadMp3 e url cn w =
        (Inr \<lparr>success = True, filename = chosen_filename cn vi,
              message = Some ''File already exists'', skipped = Some True,
              path = None, title = None\<rparr>,
         w\<lparr>io_log := io_log w @
              [GetInfo videoId,
               ExistsSync (path_join e (outputDir e) (chosen_filename cn vi))]\<rparr>)"
    by (simp add: downloadMp3_existing)
next
  assume "downloadMp3 e url cn w = (Inr r, w')"
  then obtain v vi where "extractVideoId url = Some v" "getVideoInfo e v = Inr vi"
    "filename r = chosen_filename cn vi"
    "files w' (path_join e (outputDir e) (chosen_filename cn vi)) \<noteq> None"
    using downloadMp3_fulfilled by blast
  then show "\<exists>videoId' outputPath.
         downloadMp3 e url cn w' =
           (Inr \<lparr>success = True, filename = filename r,
                 message = Some ''File already exists'', skipped = Some True,
                 path = None, title = None\<rparr>,
            w'\<lparr>io_log := io_log w' @ [GetInfo videoId', ExistsSync outputPath]\<rparr>)"
    using downloadMp3_existing [of url v e vi w' cn] by auto
qed

theorem skip_on_existing_witness:
  "fst (downloadMp3 demo_env ''https://youtu.be/AAAAAAAAAAA'' None downloaded_world) =
     Inr \<lparr>success = True, filename = ''Track AAAAAAAAAAA.mp3'',
          message = Some ''File already exists'', skipped = Some True,
          path = None, title = None\<rparr> \<and>
   io_log (snd (downloadMp3 demo_env ''https://youtu.be/AAAAAAAAAAA'' None downloaded_world)) =
     [GetInfo ''AAAAAAAAAAA'', ExistsSync ''downloads/Track AAAAAAAAAAA.mp3''] \<and>
   fst (downloadMp3 demo_env ''https://youtu.be/AAAAAAAAAAA'' None (demo_world [])) =
     Inr \<lparr>success = True, filename = ''Track AAAAAAAAAAA.mp3'', message = None, skipped = None,
          path = Some ''downloads/Track AAAAAAAAAAA.mp3'', title = Some ''Track AAAAAAAAAAA''\<rparr> \<and>
   fst (downloadMp3 demo_env ''https://youtu.be/AAAAAAAAAAA'' None
          (snd (downloadMp3 demo_env ''https://youtu.be/AAAAAAAAAAA'' None (demo_world [])))) =
     Inr \<lparr>success = True, filename = ''Track AAAAAAAAAAA.mp3'',
          message = Some ''File already exists'', skipped = Some True,
          path = None, title = None\<rparr>"
proof -
  let ?url = "''https://youtu.be/AAAAAAAAAAA''"
  let ?vi = "\<lparr>vi_title = ''Track AAAAAAAAAAA'', vi_filename = ''Track AAAAAAAAAAA.mp3'',
              duration = 185, author = ''Artist''\<rparr>"
  let ?r = "\<lparr>success = True, filename = ''Track AAAAAAAAAAA.mp3'', message = None, skipped = None,
          path = Some ''downloads/Track AAAAAAAAAAA.mp3'', title = Some ''Track AAAAAAAAAAA''\<rparr>"
  let ?w' = "snd (downloadMp3 demo_env ?url None (demo_world []))"
  have h1: "extractVideoId ?url = Some ''AAAAAAAAAAA''" by code_simp
  have h2: "getVideoInfo demo_env ''AAAAAAAAAAA'' = Inr ?vi" by code_simp
  have fn: "chosen_filename None ?vi = ''Track AAAAAAAAAAA.mp3''"
    by (simp add: chosen_filename_def)
  have pj: "path_join demo_env (outputDir demo_env) ''Track AAAAAAAAAAA.mp3'' =
      ''downloads/Track AAAAAAAAAAA.mp3''"
    by (simp add: demo_env_def)
  have h3: "files downloaded_world
      (path_join demo_env (outputDir demo_env) (chosen_filename None ?vi)) \<noteq> None"
    unfolding fn pj by (simp add: downloaded_world_def)
  from skip_on_existing [of ?url "''AAAAAAAAAAA''" demo_env ?vi downloaded_world None,
      THEN conjunct1, rule_format, OF conjI [OF h1 conjI [OF h2 h3]]]
  have existing: "downloadMp3 demo_env ?url None downloaded_world =
      (Inr \<lparr>success = True, filename = ''Track AAAAAAAAAAA.mp3'',
           message = Some ''File already exists'', skipped = Some True,
           path = None, title = None\<rparr>,
       downloaded_world\<lparr>io_log := io_log downloaded_world @
         [GetInfo ''AAAAAAAAAAA'', ExistsSync ''downloads/Track AAAAAAAAAAA.mp3'']\<rparr>)"
    unfolding fn pj .
  have first: "fst (downloadMp3 demo_env ?url None (demo_world [])) = Inr ?r"
    by code_simp
  then have h: "downloadMp3 demo_env ?url None (demo_world []) = (Inr ?r, ?w')"
    by (metis prod.collapse)
  from skip_on_existing [of ?url _ demo_env _ "demo_world []" None ?r ?w',
      THEN conjunct2, rule_format, OF h]
  have "fst (downloadMp3 demo_env ?url None ?w') =
     Inr \<lparr>success = True, filename = filename ?r,
          message = Some ''File already exists'', skipped = Some True,
          path = None, title = None\<rparr>"
    by auto
  then show ?thesis using first existing by (simp add: downloaded_world_def)
qed

text \<open>
  The claim C6 as stated fails on the code: the existence check comes after
  \<open>getVideoInfo\<close>, so the skipping run still makes one network request, for the
  metadata.
\<close>

theorem skip_on_existing_still_fetches_metadata:
  "fst (downloadMp3 demo_env ''https://youtu.be/AAAAAAAAAAA'' None downloaded_world) =
     Inr \<lparr>success = True, filename = ''Track AAAAAAAAAAA.mp3'',
          message = Some ''File already exists'', skipped = Some True,
          path = None, title = None\<rparr> \<and>
   filter is_network
     (io_log (snd (downloadMp3 demo_env ''https://youtu.be/AAAAAAAAAAA'' None downloaded_world))) =
     [GetInfo ''AAAAAAAAAAA'']"
  by code_simp

section \<open>Lines, trimming and substrings\<close>

lemma split_nl_ne: "split_nl s \<noteq> []"
  by (induction s) (auto split: list.splits)

lemma join_nl_Cons: "ls \<noteq> [] \<Longrightarrow> join_nl (l # ls) = l @ CHR 0x0A # join_nl ls"
  by (cases ls) auto

lemma join_split_nl: "join_nl (split_nl s) = s"
proof (induction s)
  case Nil
  then show ?case by simp
next
  case (Cons c cs)
  obtain l ls where sp: "split_nl cs = l # ls" using split_nl_ne [of cs] by (cases "split_nl cs") auto
  show ?case
  proof (cases "c = CHR 0x0A")
    case True
    then show ?thesis using Cons.IH by (simp add: join_nl_Cons split_nl_ne)
  next
    case False
    have "join_nl ((c # l) # ls) = c # join_nl (l # ls)" by (cases ls) auto
    then show ?thesis using False Cons.IH sp by simp
  qed
qed

lemma split_nl_no_newline: "l \<in> set (split_nl s) \<Longrightarrow> CHR 0x0A \<notin> set l"
proof (induction s arbitrary: l)
  case Nil
  then show ?case by simp
next
  case (Cons c cs)
  obtain l' ls where sp: "split_nl cs = l' # ls" using split_nl_ne [of cs] by (cases "split_nl cs") auto
  show ?case
  proof (cases "c = CHR 0x0A")
    case True
    then show ?thesis using Cons by auto
  next
    case False
    then have "l = c # l' \<or> l \<in> set ls" using Cons.prems sp by simp
    then show ?thesis using False Cons.IH sp by auto
  qed
qed

lemma startsWith_iff: "startsWith p s \<longleftrightarrow> (\<exists>b. s = p @ b)"
proof
  assume "startsWith p s"
  then have "s = p @ drop (length p) s"
    unfolding startsWith_def by (metis append_take_drop_id)
  then show "\<exists>b. s = p @ b" ..
next
  assume "\<exists>b. s = p @ b"
  then show "startsWith p s" by (auto simp: startsWith_def)
qed

lemma str_includes_iff: "str_includes sub s \<longleftrightarrow> (\<exists>a b. s = a @ sub @ b)"
proof (induction s)
  case Nil
  then show ?case by auto
next
  case (Cons c cs)
  have "(\<exists>a b. c # cs = a @ sub @ b) \<longleftrightarrow>
        (\<exists>b. c # cs = sub @ b) \<or> (\<exists>a' b. cs = a' @ sub @ b)"
  proof
    assume "\<exists>a b. c # cs = a @ sub @ b"
    then obtain a b where ab: "c # cs = a @ sub @ b" by blast
    show "(\<exists>b. c # cs = sub @ b) \<or> (\<exists>a' b. cs = a' @ sub @ b)"
    proof (cases a)
      case Nil
      then show ?thesis using ab by auto
    next
      case (Cons x a')
      then show ?thesis using ab by auto
    qed
  next
    assume "(\<exists>b. c # cs = sub @ b) \<or> (\<exists>a' b. cs = a' @ sub @ b)"
    then show "\<exists>a b. c # cs = a @ sub @ b"
    proof
      assume "\<exists>b. c # cs = sub @ b"
      then obtain b where "c # cs = [] @ sub @ b" by auto
      then show ?thesis by blast
    next
      assume "\<exists>a' b. cs = a' @ sub @ b"
      then obtain a' b where "c # cs = (c # a') @ sub @ b" by auto
      then show ?thesis by blast
    qed
  qed
  then show ?case using Cons.IH by (simp add: startsWith_iff)
qed

lemma trim_decomposition:
  "\<exists>a b. s = a @ trim s @ b \<and> (\<forall>c \<in> set a. isWhiteSpace c) \<and> (\<forall>c \<in> set b. isWhiteSpace c)"
proof -
  define t where "t = dropWhile isWhiteSpace s"
  have s: "s = takeWhile isWhiteSpace s @ t" by (simp add: t_def)
  have "rev t = takeWhile isWhiteSpace (rev t) @ dropWhile isWhiteSpace (rev t)" by simp
  then have "rev (rev t) =
      rev (dropWhile isWhiteSpace (rev t)) @ rev (takeWhile isWhiteSpace (rev t))"
    by (metis rev_append)
  then have t: "t = trim s @ rev (takeWhile isWhiteSpace (rev t))"
    by (simp add: trim_def t_def)
  have "s = takeWhile isWhiteSpace s @ trim s @ rev (takeWhile isWhiteSpace (rev t))"
    using s t by simp
  moreover have "\<forall>c \<in> set (takeWhile isWhiteSpace s). isWhiteSpace c"
    by (auto dest: set_takeWhileD)
  moreover have "\<forall>c \<in> set (rev (takeWhile isWhiteSpace (rev t))). isWhiteSpace c"
    by (auto dest: set_takeWhileD)
  ultimately show ?thesis by blast
qed

lemma trim_ends:
  assumes "trim s \<noteq> []"
  shows "\<not> isWhiteSpace (hd (trim s)) \<and> \<not> isWhiteSpace (last (trim s))"
proof -
  define t where "t = dropWhile isWhiteSpace s"
  define u where "u = dropWhile isWhiteSpace (rev t)"
  have tr: "trim s = rev u" by (simp add: trim_def t_def u_def)
  have u: "u \<noteq> []" using assms tr by simp
  then have "\<not> isWhiteSpace (hd u)" unfolding u_def by (rule hd_dropWhile)
  then have l: "\<not> isWhiteSpace (last (trim s))" using u tr by (simp add: last_rev)
  have tne: "t \<noteq> []" using u by (auto simp: u_def)
  have "last u = last (rev t)"
    using u unfolding u_def
    by (metis append_take_drop_id last_appendR takeWhile_dropWhile_id)
  then have "hd (trim s) = hd t" using u tne tr by (simp add: hd_rev last_rev)
  moreover have "\<not> isWhiteSpace (hd t)" using tne unfolding t_def by (rule hd_dropWhile)
  ultimately show ?thesis using l by simp
qed

section \<open>Range selection and the reader\<close>

lemma take_drop_nth:
  "k + n \<le> length xs \<Longrightarrow> take n (drop k xs) = map (\<lambda>j. xs ! j) [k..<k + n]"
  by (rule nth_equalityI) auto

lemma select_range_slice:
  assumes "0 \<le> s" "s \<le> int (length urls)" "0 \<le> e'"
  shows "select_range urls s (Finite e') =
           take (nat (min e' (int (length urls)) - s)) (drop (nat s) urls)"
  using assms
  by (auto simp: select_range_def js_slice_def startIdx_of_def endIdx_of_def Let_def min_def max_def)

text \<open>
  Claim C5. For a start index inside the list and an inclusive end index at or after it,
  as the command line passes them on, the selection is exactly the elements of the work
  list at the positions \<open>start\<close> to \<open>min end (length - 1)\<close>, in their order, each once:
  \<open>min end (length - 1) - start + 1\<close> items.
\<close>

theorem select_range_exact:
  assumes "0 \<le> start" and "start \<le> end'" and "start < int (length urls)"
  shows "select_range urls start (cli_endIndex (Some end')) =
           map (\<lambda>j. urls ! j) [nat start..<nat (min end' (int (length urls) - 1)) + 1] \<and>
         int (length (select_range urls start (cli_endIndex (Some end')))) =
           min end' (int (length urls) - 1) - start + 1"
proof -
  define last' where "last' = min end' (int (length urls) - 1)"
  have b: "start \<le> last'" "last' < int (length urls)" "0 \<le> last'"
    using assms by (auto simp: last'_def)
  have m: "min (end' + 1) (int (length urls)) = last' + 1" by (auto simp: last'_def)
  have "select_range urls start (cli_endIndex (Some end')) =
          take (nat (last' + 1 - start)) (drop (nat start) urls)"
    using select_range_slice [of start urls "end' + 1"] assms m
    by (auto simp: cli_endIndex_def)
  also have "\<dots> = map (\<lambda>j. urls ! j) [nat start..<nat start + nat (last' + 1 - start)]"
    using b assms by (intro take_drop_nth) auto
  also have "nat start + nat (last' + 1 - start) = nat last' + 1"
    using b assms by auto
  finally have eq: "select_range urls start (cli_endIndex (Some end')) =
      map (\<lambda>j. urls ! j) [nat start..<nat last' + 1]" .
  have "int (length (map (\<lambda>j. urls ! j) [nat start..<nat last' + 1])) = last' - start + 1"
    using b assms by auto
  then show ?thesis using eq unfolding last'_def by simp
qed

theorem select_range_exact_witness:
  "select_range [''a'', ''b'', ''c'', ''d'', ''e''] 1 (cli_endIndex (Some 3)) = [''b'', ''c'', ''d''] \<and>
   select_range [''a'', ''b'', ''c'', ''d'', ''e''] 3 (cli_endIndex (Some 9)) = [''d'', ''e'']"
proof -
  let ?urls = "[''a'', ''b'', ''c'', ''d'', ''e'']"
  have h1: "(0::int) \<le> 1" "(1::int) \<le> 3" "(1::int) < int (length ?urls)" by simp_all
  have h2: "(0::int) \<le> 3" "(3::int) \<le> 9" "(3::int) < int (length ?urls)" by simp_all
  have u1: "[nat 1..<nat (min 3 (int (length ?urls) - 1)) + 1] = [1, 2, 3]" by code_simp
  have u2: "[nat 3..<nat (min 9 (int (length ?urls) - 1)) + 1] = [3, 4]" by code_simp
  from select_range_exact [OF h1, THEN conjunct1] select_range_exact [OF h2, THEN conjunct1]
  show ?thesis unfolding u1 u2 by simp
qed

lemma downloadFromFile_returns:
  assumes "files w filePath = Some content" and "parse_urls content \<noteq> []"
    and "1 \<le> concurrent opts"
  shows "\<exists>rep. downloadFromFile e filePath opts w = Some (Inr rep) \<and>
           total rep = length (select_range (parse_urls content) (startIndex opts) (endIndex opts)) \<and>
           fullListTotal rep = length (parse_urls content) \<and>
           invoked (trace rep) = select_range (parse_urls content) (startIndex opts) (endIndex opts)"
proof -
  define sel where "sel = select_range (parse_urls content) (startIndex opts) (endIndex opts)"
  obtain a where a: "schedule (mp3_stages e None) sel (concurrent opts) (delay opts)
        (arrivals e) w = Some a"
    using schedule_run [OF assms(3), of "mp3_stages e None" sel "delay opts" "arrivals e" w]
    by blast
  have i: "invoked (trace a) = sel" by (rule schedule_invoked [OF assms(3) a])
  show ?thesis
    using assms(1,2) a i
    by (simp add: downloadFromFile_def Let_def sel_def [symmetric])
qed











text \<open>
  Between the negative start and the proper ranges the entry point counts the end index
  twice: line 35 has made it exclusive, and the validation and the selection of lines
  52-53 still read it as inclusive. The start index 2 with the end index 1 is let
  through, and the returned \<open>selectedVideos\<close> holds one video although nothing is
  downloaded; with the start index 0 and the end index 1 on five videos it holds three
  where two are downloaded.
\<close>

lemma interactive_end_index_counted_twice:
  "check_range 3 (Number 2) (Number 1) = Accepted 2 2 \<and>
   map_option
     (map_sum id (map_sum error_message (\<lambda>(selectedVideos, rep). (selectedVideos, invoked (trace rep)))))
     (getPlaylistDetails demo_env
        [''https://youtu.be/AAAAAAAAAAA'', ''https://youtu.be/CCCCCCCCCCC'',
         ''https://youtu.be/DDDDDDDDDDD'']
        (Number 2) (Number 1)
        (demo_world [''https://youtu.be/AAAAAAAAAAA'', ''https://youtu.be/CCCCCCCCCCC'',
                     ''https://youtu.be/DDDDDDDDDDD''])) =
     Some (Inr (Inr ([''https://youtu.be/DDDDDDDDDDD''], []))) \<and>
   map_option
     (map_sum id (map_sum error_message (\<lambda>(selectedVideos, rep). (selectedVideos, invoked (trace rep)))))
     (getPlaylistDetails demo_env
        [''https://youtu.be/AAAAAAAAAAA'', ''https://youtu.be/CCCCCCCCCCC'',
         ''https://youtu.be/DDDDDDDDDDD'', ''https://youtu.be/EEEEEEEEEEE'',
         ''https://youtu.be/FFFFFFFFFFF'']
        (Number 0) (Number 1)
        (demo_world [''https://youtu.be/AAAAAAAAAAA'', ''https://youtu.be/CCCCCCCCCCC'',
                     ''https://youtu.be/DDDDDDDDDDD'', ''https://youtu.be/EEEEEEEEEEE'',
                     ''https://youtu.be/FFFFFFFFFFF''])) =
     Some (Inr (Inr ([''https://youtu.be/AAAAAAAAAAA'', ''https://youtu.be/CCCCCCCCCCC'',
                      ''https://youtu.be/DDDDDDDDDDD''],
                     [''https://youtu.be/AAAAAAAAAAA'', ''https://youtu.be/CCCCCCCCCCC''])))"
  by code_simp

lemma parse_urls_single_filter:
  "parse_urls content =
     filter (\<lambda>line. line \<noteq> [] \<and> \<not> startsWith ''#'' line \<and>
                    (str_includes ''youtube.com'' line \<or> str_includes ''youtu.be'' line))
       (map trim (split_nl content))"
  by (simp add: parse_urls_def conj_assoc)

lemma parse_urls_subseq: "subseq (parse_urls content) (map trim (split_nl content))"
  unfolding parse_urls_single_filter by (rule subseq_filter_left)

text \<open>
  Claim C7. If the source file does not exist the run fails with the not-found error.
  Otherwise the content is cut at the line feeds, each line is trimmed, and the work list
  is what remains, in the order of the lines, after dropping the empty lines, the lines
  starting with \<open>#\<close> and the lines containing neither \<open>youtube.com\<close> nor \<open>youtu.be\<close>;
  an empty work list fails with the empty-source error, and a non-empty one is the list
  the range selects from.
\<close>

theorem reader:
  "(files w filePath = None \<longrightarrow>
      downloadFromFile e filePath opts w = Some (Inl (FileNotFound filePath))) \<and>
   (files w filePath = Some content \<longrightarrow>
      join_nl (split_nl content) = content \<and>
      parse_urls content =
        filter (\<lambda>line. line \<noteq> [] \<and> \<not> startsWith ''#'' line \<and>
                       (str_includes ''youtube.com'' line \<or> str_includes ''youtu.be'' line))
          (map trim (split_nl content)) \<and>
      subseq (parse_urls content) (map trim (split_nl content)) \<and>
      (parse_urls content = [] \<longrightarrow>
         downloadFromFile e filePath opts w = Some (Inl NoValidUrls)) \<and>
      (parse_urls content \<noteq> [] \<and> 1 \<le> concurrent opts \<longrightarrow>
         (\<exists>rep. downloadFromFile e filePath opts w = Some (Inr rep) \<and>
            fullListTotal rep = length (parse_urls content) \<and>
            invoked (trace rep) =
              select_range (parse_urls content) (startIndex opts) (endIndex opts))))"
proof (intro conjI impI)
  assume "files w filePath = None"
  then show "downloadFromFile e filePath opts w = Some (Inl (FileNotFound filePath))"
    by (simp add: downloadFromFile_def)
next
  show "join_nl (split_nl content) = content" by (rule join_split_nl)
next
  show "parse_urls content =
        filter (\<lambda>line. line \<noteq> [] \<and> \<not> startsWith ''#'' line \<and>
                       (str_includes ''youtube.com'' line \<or> str_includes ''youtu.be'' line))
          (map trim (split_nl content))"
    by (rule parse_urls_single_filter)
next
  show "subseq (parse_urls content) (map trim (split_nl content))"
    by (rule parse_urls_subseq)
next
  assume "files w filePath = Some content" "parse_urls content = []"
  then show "downloadFromFile e filePath opts w = Some (Inl NoValidUrls)"
    by (simp add: downloadFromFile_def)
next
  assume f: "files w filePath = Some content"
    and "parse_urls content \<noteq> [] \<and> 1 \<le> concurrent opts"
  then show "\<exists>rep. downloadFromFile e filePath opts w = Some (Inr rep) \<and>
            fullListTotal rep = length (parse_urls content) \<and>
            invoked (trace rep) =
              select_range (parse_urls content) (startIndex opts) (endIndex opts)"
    using downloadFromFile_returns [of w filePath content opts e] by blast
qed

theorem reader_witness:
  "downloadFromFile demo_env ''missing.txt'' default_options (demo_world []) =
     Some (Inl (FileNotFound ''missing.txt'')) \<and>
   downloadFromFile demo_env ''playlist.txt'' default_options
     (demo_world [''# only a comment'', [], ''not-a-url'']) = Some (Inl NoValidUrls) \<and>
   parse_urls (join_nl [''  https://youtu.be/AAAAAAAAAAA  '', ''#https://youtu.be/BBBBBBBBBBB'',
                        ''see youtube.com'']) =
     [''https://youtu.be/AAAAAAAAAAA'', ''see youtube.com''] \<and>
   (\<exists>rep. downloadFromFile demo_env ''playlist.txt'' default_options
             (demo_world [''  https://youtu.be/AAAAAAAAAAA  '', ''#https://youtu.be/BBBBBBBBBBB'',
                          ''see youtube.com'']) = Some (Inr rep) \<and>
          fullListTotal rep = 2 \<and>
          invoked (trace rep) = [''https://youtu.be/AAAAAAAAAAA'', ''see youtube.com''])"
proof -
  let ?bad = "[''# only a comment'', [], ''not-a-url'']"
  let ?good = "[''  https://youtu.be/AAAAAAAAAAA  '', ''#https://youtu.be/BBBBBBBBBBB'',
                        ''see youtube.com'']"
  let ?kept = "[''https://youtu.be/AAAAAAAAAAA'', ''see youtube.com'']"
  have m: "files (demo_world []) ''missing.txt'' = None" by (simp add: demo_world_def)
  have fb: "files (demo_world ?bad) ''playlist.txt'' = Some (join_nl ?bad)"
    by (simp add: demo_world_def)
  have fg: "files (demo_world ?good) ''playlist.txt'' = Some (join_nl ?good)"
    by (simp add: demo_world_def)
  have pb: "parse_urls (join_nl ?bad) = []" by code_simp
  have pg: "parse_urls (join_nl ?good) = ?kept" by code_simp
  have sel: "select_range ?kept (startIndex default_options) (endIndex default_options) = ?kept"
    by code_simp
  have c: "1 \<le> concurrent default_options" by (simp add: default_options_def)
  have ne: "parse_urls (join_nl ?good) \<noteq> []" unfolding pg by simp
  have 1: "downloadFromFile demo_env ''missing.txt'' default_options (demo_world []) =
     Some (Inl (FileNotFound ''missing.txt''))"
    by (rule reader [of "demo_world []" "''missing.txt''" demo_env default_options "[]",
          THEN conjunct1, THEN mp, OF m])
  have 2: "downloadFromFile demo_env ''playlist.txt'' default_options (demo_world ?bad) =
      Some (Inl NoValidUrls)"
    by (rule reader [of "demo_world ?bad" "''playlist.txt''" demo_env default_options
          "join_nl ?bad", THEN conjunct2, THEN mp, OF fb, THEN conjunct2, THEN conjunct2,
          THEN conjunct2, THEN conjunct1, THEN mp, OF pb])
  obtain rep where rep: "downloadFromFile demo_env ''playlist.txt'' default_options
        (demo_world ?good) = Some (Inr rep)"
    and n: "fullListTotal rep = length (parse_urls (join_nl ?good))"
    and i: "invoked (trace rep) =
      select_range (parse_urls (join_nl ?good)) (startIndex default_options)
        (endIndex default_options)"
    using reader [of "demo_world ?good" "''playlist.txt''" demo_env default_options
          "join_nl ?good", THEN conjunct2, THEN mp, OF fg, THEN conjunct2, THEN conjunct2,
          THEN conjunct2, THEN conjunct2, THEN mp, OF conjI [OF ne c]]
    by (elim exE conjE)
  have "fullListTotal rep = 2" "invoked (trace rep) = ?kept"
    using n i unfolding pg sel by simp_all
  then have 3: "\<exists>rep. downloadFromFile demo_env ''playlist.txt'' default_options (demo_world ?good)
             = Some (Inr rep) \<and> fullListTotal rep = 2 \<and> invoked (trace rep) = ?kept"
    using rep by (intro exI conjI)
  show ?thesis by (intro conjI 1 2 3 pg)
qed

text \<open>
  The claim C8 as stated fails on the code: with the host \<open>x\<close> neither watch URL contains
  \<open>youtube.com\<close> or \<open>youtu.be\<close>, no line is kept and the read fails with the empty-source
  error.
\<close>

theorem scenario_host_x_not_recognised:
  "parse_urls (join_nl [''https://x/watch?v=AAAAAAAAAAA'', ''# comment'', [], ''not-a-url'',
                        ''https://x/watch?v=BBBBBBBBBBB'']) = [] \<and>
   downloadFromFile demo_env ''playlist.txt'' default_options
     (demo_world [''https://x/watch?v=AAAAAAAAAAA'', ''# comment'', [], ''not-a-url'',
                  ''https://x/watch?v=BBBBBBBBBBB'']) = Some (Inl NoValidUrls)"
proof -
  have "parse_urls (join_nl [''https://x/watch?v=AAAAAAAAAAA'', ''# comment'', [], ''not-a-url'',
                        ''https://x/watch?v=BBBBBBBBBBB'']) = []"
    by code_simp
  moreover have "files (demo_world [''https://x/watch?v=AAAAAAAAAAA'', ''# comment'', [],
      ''not-a-url'', ''https://x/watch?v=BBBBBBBBBBB'']) ''playlist.txt'' =
      Some (join_nl [''https://x/watch?v=AAAAAAAAAAA'', ''# comment'', [], ''not-a-url'',
                        ''https://x/watch?v=BBBBBBBBBBB''])"
    by (simp add: demo_world_def)
  ultimately show ?thesis by (simp add: downloadFromFile_def del: join_nl.simps)
qed

text \<open>
  Claim C8, with a host the code recognises. The lines
  \<open>https://youtube.com/watch?v=AAAAAAAAAAA\<close>, \<open># comment\<close>, the empty line, \<open>not-a-url\<close>
  and \<open>https://youtube.com/watch?v=BBBBBBBBBBB\<close> yield a work list of exactly the two
  watch URLs, in that order.
\<close>

theorem scenario_recognised_host:
  "parse_urls (join_nl [''https://youtube.com/watch?v=AAAAAAAAAAA'', ''# comment'', [],
                        ''not-a-url'', ''https://youtube.com/watch?v=BBBBBBBBBBB'']) =
     [''https://youtube.com/watch?v=AAAAAAAAAAA'', ''https://youtube.com/watch?v=BBBBBBBBBBB'']"
  by code_simp

end
